theory Spec2Isabelle
  imports Main "HOL-Library.Word"
begin

unbundle bit_operations_syntax

section \<open>Data model\<close>

text \<open>
  The gateway \<open>filesrv\<close> keeps whole files in memory. A file body is a Go byte slice.
  The counters the code increments (\<open>size\<close>, \<open>lastmod\<close>) are 64-bit words, as \<open>int\<close> and
  \<open>int64\<close> are on amd64; a Go \<open>int\<close> that is only compared or converted (\<open>maxItems\<close>, the
  size of a file, a status code) is an integer. A \<open>time.Time\<close> is an instant counted
  from Go's zero time, so that the zero value of the struct is \<open>0\<close>.
\<close>

type_synonym byte = "8 word"

type_synonym int64 = "64 word"

type_synonym time = int

text \<open>What a Go call yields: a value, or a panic that unwinds the callers.\<close>

datatype 'a go = Return 'a | Panic string

text \<open>
  The \<open>error\<close> values that occur: \<open>http.ErrMissingFile\<close>, \<open>errors.New("retry")\<close> of
  the invalidator, \<open>io.EOF\<close>, the errors of \<open>bytes.Reader.Seek\<close> and of
  \<open>net.SplitHostPort\<close>, and any other error with its text (of the HTTP client, of reading
  a body, of a test's filesystem).
\<close>

datatype error = ErrMissingFile | GoError string | ErrRetry | EOF
  | SeekError string | AddrError string

subsection \<open>\<open>bytes.Reader\<close>\<close>

text \<open>
  \<open>bytes.Reader\<close> has the slice \<open>s\<close> it reads and the current offset \<open>i\<close> (an
  \<open>int64\<close>). No method of it writes to \<open>s\<close>.
\<close>

record Reader =
  rd_s :: "byte list"
  rd_i :: int

definition wrap64 :: "int \<Rightarrow> int" where
  "wrap64 x = sint (word_of_int x :: int64)"

definition NewReader :: "byte list \<Rightarrow> Reader" where
  "NewReader b = \<lparr>rd_s = b, rd_i = 0\<rparr>"

text \<open>\<open>Len\<close>: the number of bytes of the unread portion of the slice.\<close>

definition Len :: "Reader \<Rightarrow> int" where
  "Len r = (if rd_i r \<ge> int (length (rd_s r)) then 0 else int (length (rd_s r)) - rd_i r)"

text \<open>\<open>Read(b)\<close> with \<open>len(b) = n\<close>: the bytes copied into \<open>b\<close>, or \<open>io.EOF\<close>.\<close>

definition Read :: "nat \<Rightarrow> Reader \<Rightarrow> (error + byte list) \<times> Reader" where
  "Read n r =
     (if rd_i r \<ge> int (length (rd_s r)) then (Inl EOF, r)
      else let bs = take n (drop (nat (rd_i r)) (rd_s r))
           in (Inr bs, r\<lparr>rd_i := rd_i r + int (length bs)\<rparr>))"

definition Seek :: "int \<Rightarrow> int \<Rightarrow> Reader \<Rightarrow> (error + int) \<times> Reader" where
  "Seek offset whence r =
     (if whence \<noteq> 0 \<and> whence \<noteq> 1 \<and> whence \<noteq> 2
      then (Inl (SeekError ''bytes.Reader.Seek: invalid whence''), r)
      else let abs = (if whence = 0 then offset
                      else if whence = 1 then wrap64 (rd_i r + offset)
                      else wrap64 (int (length (rd_s r)) + offset))
           in if abs < 0 then (Inl (SeekError ''bytes.Reader.Seek: negative position''), r)
              else (Inr abs, r\<lparr>rd_i := abs\<rparr>))"

subsection \<open>\<open>fileInfo\<close> and \<open>file\<close>\<close>

record fileInfo =
  basename :: string
  modtime :: time
  fi_size :: int
  contentType :: string
  etag :: string

definition Name :: "fileInfo \<Rightarrow> string" where
  "Name f = basename f"

definition Size :: "fileInfo \<Rightarrow> int64" where
  "Size f = word_of_int (fi_size f)"

text \<open>The zero value of the struct, which a Go map yields for an absent key.\<close>

definition zero_fileInfo :: fileInfo where
  "zero_fileInfo = \<lparr>basename = [], modtime = 0, fi_size = 0, contentType = [], etag = []\<rparr>"

text \<open>
  \<open>file\<close> embeds an \<open>io.ReadSeeker\<close> (always a \<open>*bytes.Reader\<close> here) and has the slice
  \<open>buf\<close>, which is \<open>nil\<close> (\<open>None\<close>) in a read clone.
\<close>

record File =
  ReadSeeker :: Reader
  f_fi :: fileInfo
  f_buf :: "byte list option"

definition readClone :: "File \<Rightarrow> File go" where
  "readClone f =
     (case f_buf f of
        None \<Rightarrow> Panic ''copy a readClone''
      | Some b \<Rightarrow> Return \<lparr>ReadSeeker = NewReader b, f_fi = f_fi f, f_buf = None\<rparr>)"

section \<open>The cache and its invalidator\<close>

record centry =
  ce_file :: File
  ce_name :: string

text \<open>
  The state of \<open>cacheInvalidator\<close> that \<open>Add\<close>, \<open>Del\<close> and the sweep share under its
  mutex. \<open>added\<close> and \<open>removed\<close> are maps to \<open>true\<close>, used as sets of keys.
\<close>

record cacheInvalidator =
  ci_items :: "string \<rightharpoonup> fileInfo"
  ci_added :: "string set"
  ci_removed :: "string set"
  ci_lastmod :: int64

definition newCacheInvalidator :: cacheInvalidator where
  "newCacheInvalidator = \<lparr>ci_items = Map.empty, ci_added = {}, ci_removed = {}, ci_lastmod = 0\<rparr>"

definition Add :: "centry \<Rightarrow> cacheInvalidator \<Rightarrow> cacheInvalidator" where
  "Add ent ci = ci\<lparr>ci_items := (ci_items ci)(ce_name ent \<mapsto> f_fi (ce_file ent)),
                    ci_added := insert (ce_name ent) (ci_added ci),
                    ci_lastmod := ci_lastmod ci + 1\<rparr>"

definition Del :: "centry \<Rightarrow> cacheInvalidator \<Rightarrow> cacheInvalidator" where
  "Del ent ci = ci\<lparr>ci_items := (ci_items ci)(ce_name ent := None),
                    ci_removed := insert (ce_name ent) (ci_removed ci),
                    ci_lastmod := ci_lastmod ci + 1\<rparr>"

text \<open>
  A \<open>*list.Element\<close> of \<open>container/list\<close> is modelled by the identity it got when it
  was pushed together with its \<open>Value\<close>, which is never assigned again. \<open>evictList\<close> is
  the list from front (most recently used) to back; \<open>mc_next\<close> is the next fresh identity.
\<close>

datatype Element = Element (el_id: nat) (Value: centry)

record memoryCacheFilesystem =
  evictList :: "Element list"
  mc_next :: nat
  cache :: "string \<rightharpoonup> Element"
  maxSize :: int64
  mc_size :: int64
  maxItems :: int
  mc_items :: int
  invalidator :: cacheInvalidator

definition NewCache :: "int \<Rightarrow> int \<Rightarrow> memoryCacheFilesystem" where
  "NewCache maxItems' maxSize' =
     \<lparr>evictList = [], mc_next = 0, cache = Map.empty, maxSize = word_of_int maxSize',
      mc_size = 0, maxItems = maxItems', mc_items = 0, invalidator = newCacheInvalidator\<rparr>"

text \<open>The operations of \<open>container/list\<close> that the cache calls.\<close>

definition list_Remove :: "Element \<Rightarrow> Element list \<Rightarrow> Element list" where
  "list_Remove e l = remove1 e l"

definition MoveToFront :: "Element \<Rightarrow> Element list \<Rightarrow> Element list" where
  "MoveToFront e l = (if e \<in> set l then e # remove1 e l else l)"

definition Back :: "Element list \<Rightarrow> Element option" where
  "Back l = (if l = [] then None else Some (last l))"

definition removeElement :: "Element \<Rightarrow> memoryCacheFilesystem \<Rightarrow> memoryCacheFilesystem" where
  "removeElement ent fs =
     (let cent = Value ent
      in fs\<lparr>evictList := list_Remove ent (evictList fs),
            mc_size := mc_size fs - Size (f_fi (ce_file cent)),
            cache := (cache fs)(ce_name cent := None),
            invalidator := Del cent (invalidator fs)\<rparr>)"

definition removeOldest :: "memoryCacheFilesystem \<Rightarrow> memoryCacheFilesystem" where
  "removeOldest fs = (case Back (evictList fs) of None \<Rightarrow> fs | Some ent \<Rightarrow> removeElement ent fs)"

definition get :: "string \<Rightarrow> memoryCacheFilesystem \<Rightarrow> File option go \<times> memoryCacheFilesystem" where
  "get name fs =
     (case cache fs name of
        None \<Rightarrow> (Return None, fs)
      | Some ent \<Rightarrow>
          let fs1 = fs\<lparr>evictList := MoveToFront ent (evictList fs)\<rparr>
          in (case readClone (ce_file (Value ent)) of
                Panic p \<Rightarrow> (Panic p, fs1)
              | Return f \<Rightarrow> (Return (Some f), fs1)))"

text \<open>The steps of \<open>add\<close>, in the order of the source.\<close>

definition add_delete_existing :: "string \<Rightarrow> memoryCacheFilesystem \<Rightarrow> memoryCacheFilesystem" where
  "add_delete_existing name fs = (case cache fs name of None \<Rightarrow> fs | Some v \<Rightarrow> removeElement v fs)"

definition add_push :: "string \<Rightarrow> File \<Rightarrow> memoryCacheFilesystem \<Rightarrow> memoryCacheFilesystem" where
  "add_push name f fs =
     (let e = Element (mc_next fs) \<lparr>ce_file = f, ce_name = name\<rparr>
      in fs\<lparr>evictList := e # evictList fs,
            mc_next := Suc (mc_next fs),
            cache := (cache fs)(name \<mapsto> e),
            mc_size := mc_size fs + Size (f_fi f)\<rparr>)"

definition add_evict :: "memoryCacheFilesystem \<Rightarrow> memoryCacheFilesystem" where
  "add_evict fs = (if int (length (evictList fs)) > maxItems fs then removeOldest fs else fs)"

definition add_register :: "string \<Rightarrow> File \<Rightarrow> memoryCacheFilesystem \<Rightarrow> memoryCacheFilesystem" where
  "add_register name f fs = fs\<lparr>invalidator := Add \<lparr>ce_file = f, ce_name = name\<rparr> (invalidator fs)\<rparr>"

definition add :: "string \<Rightarrow> File \<Rightarrow> memoryCacheFilesystem \<Rightarrow> File go \<times> memoryCacheFilesystem" where
  "add name f fs =
     (let fs1 = add_delete_existing name fs;
          fs2 = add_push name f fs1;
          fs3 = add_evict fs2;
          fs4 = add_register name f fs3
      in (readClone f, fs4))"

definition del :: "string \<Rightarrow> memoryCacheFilesystem \<Rightarrow> bool \<times> memoryCacheFilesystem" where
  "del name fs =
     (case cache fs name of
        None \<Rightarrow> (False, fs)
      | Some ent \<Rightarrow> (True, removeElement ent fs))"

text \<open>
  \<open>Open\<close> of the cache over an origin filesystem \<open>origin\<close> with a state \<open>'w\<close> of its own
  (what it serves, what it has been asked): a hit does not call it.
\<close>

definition Open ::
  "(string \<Rightarrow> 'w \<Rightarrow> (error + File) \<times> 'w) \<Rightarrow> string \<Rightarrow> memoryCacheFilesystem \<times> 'w
     \<Rightarrow> (error + File) go \<times> (memoryCacheFilesystem \<times> 'w)" where
  "Open origin name st =
     (case get name (fst st) of
        (Panic p, fs1) \<Rightarrow> (Panic p, (fs1, snd st))
      | (Return (Some f), fs1) \<Rightarrow> (Return (Inr f), (fs1, snd st))
      | (Return None, fs1) \<Rightarrow>
          (case origin name (snd st) of
             (Inl err, w1) \<Rightarrow> (Return (Inl err), (fs1, w1))
           | (Inr f, w1) \<Rightarrow>
               (case add name f fs1 of
                  (Panic p, fs2) \<Rightarrow> (Panic p, (fs2, w1))
                | (Return rv, fs2) \<Rightarrow> (Return (Inr rv), (fs2, w1)))))"

section \<open>Invariants of the cache\<close>

text \<open>
  The key of an element and the size of its file, which is what \<open>fi.Size()\<close> reports; the
  sum of these sizes over the list, in \<open>int64\<close> arithmetic as the counter adds them, and as
  an integer.
\<close>

definition entry_size :: "Element \<Rightarrow> int64" where
  "entry_size e = Size (f_fi (ce_file (Value e)))"

definition key :: "Element \<Rightarrow> string" where
  "key e = ce_name (Value e)"

definition stored_size :: "memoryCacheFilesystem \<Rightarrow> int64" where
  "stored_size fs = sum_list (map entry_size (evictList fs))"

definition stored_bytes :: "memoryCacheFilesystem \<Rightarrow> int" where
  "stored_bytes fs = sum_list (map (\<lambda>e. fi_size (f_fi (ce_file (Value e)))) (evictList fs))"

text \<open>
  \<open>cache_wf\<close>: the list and the map hold the same elements (every element of the list is the
  map's value at its own key, every value of the map is in the list under that key), and
  the identities in the list are distinct and already handed out.
\<close>

definition cache_wf :: "memoryCacheFilesystem \<Rightarrow> bool" where
  "cache_wf fs \<longleftrightarrow>
     distinct (map el_id (evictList fs)) \<and>
     (\<forall>e \<in> set (evictList fs). el_id e < mc_next fs \<and> cache fs (key e) = Some e) \<and>
     (\<forall>k e. cache fs k = Some e \<longrightarrow> e \<in> set (evictList fs) \<and> key e = k)"

definition size_ok :: "memoryCacheFilesystem \<Rightarrow> bool" where
  "size_ok fs \<longleftrightarrow> mc_size fs = stored_size fs"

text \<open>
  \<open>size_inv\<close>: the state is well formed and the counter \<open>size\<close> is the sum, in \<open>int64\<close>
  arithmetic, of \<open>Size()\<close> of the files stored.
\<close>

definition size_inv :: "memoryCacheFilesystem \<Rightarrow> bool" where
  "size_inv fs \<longleftrightarrow> cache_wf fs \<and> mc_size fs = stored_size fs"

text \<open>
  \<open>newFile\<close> of the repository's cache test builds a file from its content; its
  modification time is \<open>time.Date(2015, 9, 1, 15, 3, 1, 0, time.UTC)\<close>, in seconds.
\<close>

definition bytes_of :: "string \<Rightarrow> byte list" where
  "bytes_of s = map of_char s"

definition newFile :: "string \<Rightarrow> File" where
  "newFile content =
     (let buf = bytes_of content; rd = NewReader buf
      in \<lparr>ReadSeeker = rd,
          f_fi = \<lparr>basename = content, modtime = 63576716581, fi_size = Len rd,
                   contentType = ''application/text'', etag = ''tag''\<rparr>,
          f_buf = Some buf\<rparr>)"

section \<open>Sequences of \<open>Open\<close> calls\<close>

text \<open>
  \<open>Opens\<close> runs \<open>Open\<close> for each name in turn; a call that panics leaves the state as
  it was when the panic was raised, and the next call goes on from there.
\<close>

definition Opens ::
  "(string \<Rightarrow> 'w \<Rightarrow> (error + File) \<times> 'w) \<Rightarrow> string list \<Rightarrow> memoryCacheFilesystem \<times> 'w
     \<Rightarrow> memoryCacheFilesystem \<times> 'w" where
  "Opens origin names st = fold (\<lambda>name st'. snd (Open origin name st')) names st"

definition within_capacity :: "memoryCacheFilesystem \<Rightarrow> bool" where
  "within_capacity fs \<longleftrightarrow> int (length (evictList fs)) \<le> maxItems fs"

definition reach_inv :: "int \<Rightarrow> memoryCacheFilesystem \<Rightarrow> bool" where
  "reach_inv N fs \<longleftrightarrow> cache_wf fs \<and> within_capacity fs \<and> maxItems fs = N"

section \<open>The test filesystem\<close>

text \<open>
  \<open>fakeFs\<close> of the repository's cache test: it serves the files it was given and counts
  the calls of \<open>Open\<close> and the files found.
\<close>

record fakeFs =
  files :: "string \<rightharpoonup> File"
  filesStat :: "string \<Rightarrow> int"
  openCnt :: int

definition newFakeFs :: fakeFs where
  "newFakeFs = \<lparr>files = Map.empty, filesStat = (\<lambda>_. 0), openCnt = 0\<rparr>"

definition fakeFs_Open :: "string \<Rightarrow> fakeFs \<Rightarrow> (error + File) \<times> fakeFs" where
  "fakeFs_Open name fs =
     (let fs1 = fs\<lparr>openCnt := openCnt fs + 1\<rparr>
      in case files fs1 name of
           None \<Rightarrow> (Inl (GoError ''not exist''), fs1)
         | Some f \<Rightarrow> (Inr f, fs1\<lparr>filesStat := (filesStat fs1)(name := filesStat fs1 name + 1)\<rparr>))"

definition two_files :: fakeFs where
  "two_files = newFakeFs\<lparr>files := [''file1'' \<mapsto> newFile ''file1'', ''file2'' \<mapsto> newFile ''file2'']\<rparr>"

definition first_open :: "(error + File) go \<times> memoryCacheFilesystem \<times> fakeFs" where
  "first_open = Open fakeFs_Open ''file1'' (NewCache 2 64, two_files)"

definition one_cached :: memoryCacheFilesystem where
  "one_cached = snd (add ''file1'' (newFile ''file1'') (NewCache 2 64))"

section \<open>The sweep of the invalidator\<close>

text \<open>
  The goroutine \<open>run\<close> owns a snapshot \<open>items\<close> and the value of \<open>lastmod\<close> it has seen.
\<close>

record run_state =
  r_items :: "string \<rightharpoonup> fileInfo"
  r_lastmod :: int64

definition run_init :: run_state where
  "run_init = \<lparr>r_items = Map.empty, r_lastmod = 0\<rparr>"

text \<open>Indexing a Go map: the zero value for an absent key.\<close>

definition index_items :: "(string \<rightharpoonup> fileInfo) \<Rightarrow> string \<Rightarrow> fileInfo" where
  "index_items m k = (case m k of None \<Rightarrow> zero_fileInfo | Some fi \<Rightarrow> fi)"

text \<open>
  The two \<open>range\<close> loops of the fold. Each iteration reads and writes the entries of its own
  key only, so the order of the keys does not matter and every key of the set is visited.
\<close>

definition delete_removed :: "string set \<Rightarrow> (string \<rightharpoonup> fileInfo) \<Rightarrow> (string \<rightharpoonup> fileInfo)" where
  "delete_removed removed items = (\<lambda>k. if k \<in> removed then None else items k)"

definition copy_added ::
  "string set \<Rightarrow> (string \<rightharpoonup> fileInfo) \<Rightarrow> (string \<rightharpoonup> fileInfo) \<Rightarrow> (string \<rightharpoonup> fileInfo)" where
  "copy_added added shared items = (\<lambda>k. if k \<in> added then Some (index_items shared k) else items k)"

definition fold_deltas :: "run_state \<Rightarrow> cacheInvalidator \<Rightarrow> run_state \<times> cacheInvalidator" where
  "fold_deltas loc ci =
     (if ci_lastmod ci \<noteq> r_lastmod loc
      then (\<lparr>r_items = copy_added (ci_added ci) (ci_items ci) (delete_removed (ci_removed ci) (r_items loc)),
             r_lastmod = ci_lastmod ci\<rparr>,
            ci\<lparr>ci_removed := {}, ci_added := {}\<rparr>)
      else (loc, ci))"

text \<open>
  A request as \<open>check\<close> builds it. The HTTP client is a function \<open>Do\<close> on a state \<open>'n\<close> of
  the network; it stands for \<open>http.NewRequest\<close> followed by \<open>http.DefaultClient.Do\<close>, and
  its error is the error of either. \<open>fmt\<close> is \<open>t.UTC().Format(http.TimeFormat)\<close>.
\<close>

record Request =
  Method :: string
  URL :: string
  Header :: "(string \<times> string) list"

definition head_request :: "(time \<Rightarrow> string) \<Rightarrow> fileInfo \<Rightarrow> Request" where
  "head_request fmt fi =
     \<lparr>Method = ''HEAD'', URL = Name fi,
      Header = [(''If-Modified-Since'', fmt (modtime fi)), (''If-None-Match'', etag fi)]\<rparr>"

definition check ::
  "(time \<Rightarrow> string) \<Rightarrow> (Request \<Rightarrow> 'n \<Rightarrow> (error + int) \<times> 'n) \<Rightarrow> fileInfo \<Rightarrow> 'n
     \<Rightarrow> (bool \<times> error option) \<times> 'n" where
  "check fmt Do fi n =
     (case Do (head_request fmt fi) n of
        (Inl err, n1) \<Rightarrow> ((False, Some err), n1)
      | (Inr StatusCode, n1) \<Rightarrow>
          (if StatusCode = 304 then ((True, None), n1)
           else if StatusCode = 429 \<or> StatusCode = 408 then ((False, Some ErrRetry), n1)
           else ((False, None), n1)))"

text \<open>
  The loop over the snapshot, in the order \<open>range\<close> happens to take; \<open>delfn\<close> is \<open>del\<close> of
  the cache.
\<close>

fun sweep ::
  "(time \<Rightarrow> string) \<Rightarrow> (Request \<Rightarrow> 'n \<Rightarrow> (error + int) \<times> 'n) \<Rightarrow> (string \<times> fileInfo) list
     \<Rightarrow> memoryCacheFilesystem \<times> 'n \<Rightarrow> memoryCacheFilesystem \<times> 'n" where
  "sweep fmt Do [] st = st"
| "sweep fmt Do ((name, fi) # rest) (fs, n) =
     (case check fmt Do fi n of
        ((uptodate, Some err), n1) \<Rightarrow> sweep fmt Do rest (fs, n1)
      | ((uptodate, None), n1) \<Rightarrow>
          (if \<not> uptodate then sweep fmt Do rest (snd (del name fs), n1)
           else sweep fmt Do rest (fs, n1)))"

definition range_items :: "(string \<rightharpoonup> fileInfo) \<Rightarrow> string list \<Rightarrow> (string \<times> fileInfo) list" where
  "range_items items order = List.map_filter (\<lambda>k. map_option (Pair k) (items k)) order"

text \<open>
  One wake-up of \<open>run\<close> after the period: the fold under the invalidator's mutex, then the
  sweep. \<open>order\<close> lists the keys of the snapshot in the order of the \<open>range\<close>.
\<close>

definition tick ::
  "(time \<Rightarrow> string) \<Rightarrow> (Request \<Rightarrow> 'n \<Rightarrow> (error + int) \<times> 'n) \<Rightarrow> string list
     \<Rightarrow> run_state \<times> memoryCacheFilesystem \<times> 'n \<Rightarrow> run_state \<times> memoryCacheFilesystem \<times> 'n" where
  "tick fmt Do order st =
     (case st of (loc, fs, n) \<Rightarrow>
        (case fold_deltas loc (invalidator fs) of (loc1, ci1) \<Rightarrow>
           (case sweep fmt Do (range_items (r_items loc1) order) (fs\<lparr>invalidator := ci1\<rparr>, n) of
              (fs1, n1) \<Rightarrow> (loc1, fs1, n1))))"

text \<open>The answers of the client to a list of requests sent in order.\<close>

fun replies :: "(Request \<Rightarrow> 'n \<Rightarrow> (error + int) \<times> 'n) \<Rightarrow> Request list \<Rightarrow> 'n \<Rightarrow> (error + int) list \<times> 'n" where
  "replies Do [] n = ([], n)"
| "replies Do (r # rs) n =
     (case Do r n of (a, n1) \<Rightarrow> (case replies Do rs n1 of (as, n2) \<Rightarrow> (a # as, n2)))"

definition evicts :: "error + int \<Rightarrow> bool" where
  "evicts a = (case a of Inl err \<Rightarrow> False | Inr s \<Rightarrow> s \<noteq> 304 \<and> s \<noteq> 408 \<and> s \<noteq> 429)"

text \<open>The names a sweep hands to the eviction callback, in order.\<close>

fun invalid_names ::
  "(time \<Rightarrow> string) \<Rightarrow> (Request \<Rightarrow> 'n \<Rightarrow> (error + int) \<times> 'n) \<Rightarrow> (string \<times> fileInfo) list \<Rightarrow> 'n
     \<Rightarrow> string list" where
  "invalid_names fmt Do [] n = []"
| "invalid_names fmt Do ((name, fi) # rest) n =
     (case Do (head_request fmt fi) n of
        (a, n1) \<Rightarrow> (if evicts a then name # invalid_names fmt Do rest n1 else invalid_names fmt Do rest n1))"

definition requests_of :: "(time \<Rightarrow> string) \<Rightarrow> (string \<times> fileInfo) list \<Rightarrow> Request list" where
  "requests_of fmt entries = map (\<lambda>(name, fi). head_request fmt fi) entries"

definition two_cached :: memoryCacheFilesystem where
  "two_cached = snd (add ''file2'' (newFile ''file2'') (snd (add ''file1'' (newFile ''file1'') (NewCache 2 64))))"

text \<open>An origin that reports \<open>file1\<close> changed and is busy for everything else; it logs the requests.\<close>

definition busy_origin :: "Request \<Rightarrow> Request list \<Rightarrow> (error + int) \<times> Request list" where
  "busy_origin req log = (if URL req = ''file1'' then Inr 200 else Inr 429, log @ [req])"

definition gmt :: "time \<Rightarrow> string" where
  "gmt t = (if t = 63576716581 then ''Tue, 01 Sep 2015 15:03:01 GMT'' else ''Mon, 01 Jan 0001 00:00:00 GMT'')"

text \<open>
  A cache of capacity 1 in which \<open>file1\<close> is inserted and then evicted by the insert of
  \<open>file2\<close>, before the invalidator has woken up.
\<close>

definition evicted_early :: memoryCacheFilesystem where
  "evicted_early = snd (add ''file2'' (newFile ''file2'') (snd (add ''file1'' (newFile ''file1'') (NewCache 1 64))))"

section \<open>MD5 and hexadecimal encoding\<close>

text \<open>
  \<open>crypto/md5\<close> and \<open>encoding/hex\<close> are libraries of Go; they are modelled by what they
  compute: the MD5 digest of RFC 1321 on 32-bit words, and the lower-case hexadecimal
  encoding of a byte slice.
\<close>

definition md5_K :: "32 word list" where
  "md5_K =
    [0xd76aa478, 0xe8c7b756, 0x242070db, 0xc1bdceee, 0xf57c0faf, 0x4787c62a, 0xa8304613, 0xfd469501,
     0x698098d8, 0x8b44f7af, 0xffff5bb1, 0x895cd7be, 0x6b901122, 0xfd987193, 0xa679438e, 0x49b40821,
     0xf61e2562, 0xc040b340, 0x265e5a51, 0xe9b6c7aa, 0xd62f105d, 0x02441453, 0xd8a1e681, 0xe7d3fbc8,
     0x21e1cde6, 0xc33707d6, 0xf4d50d87, 0x455a14ed, 0xa9e3e905, 0xfcefa3f8, 0x676f02d9, 0x8d2a4c8a,
     0xfffa3942, 0x8771f681, 0x6d9d6122, 0xfde5380c, 0xa4beea44, 0x4bdecfa9, 0xf6bb4b60, 0xbebfbc70,
     0x289b7ec6, 0xeaa127fa, 0xd4ef3085, 0x04881d05, 0xd9d4d039, 0xe6db99e5, 0x1fa27cf8, 0xc4ac5665,
     0xf4292244, 0x432aff97, 0xab9423a7, 0xfc93a039, 0x655b59c3, 0x8f0ccc92, 0xffeff47d, 0x85845dd1,
     0x6fa87e4f, 0xfe2ce6e0, 0xa3014314, 0x4e0811a1, 0xf7537e82, 0xbd3af235, 0x2ad7d2bb, 0xeb86d391]"

definition md5_s :: "nat list" where
  "md5_s =
    [7, 12, 17, 22, 7, 12, 17, 22, 7, 12, 17, 22, 7, 12, 17, 22,
     5, 9, 14, 20, 5, 9, 14, 20, 5, 9, 14, 20, 5, 9, 14, 20,
     4, 11, 16, 23, 4, 11, 16, 23, 4, 11, 16, 23, 4, 11, 16, 23,
     6, 10, 15, 21, 6, 10, 15, 21, 6, 10, 15, 21, 6, 10, 15, 21]"

definition md5_pad :: "byte list \<Rightarrow> byte list" where
  "md5_pad msg =
     msg @ [0x80] @ replicate ((55 + 64 - length msg mod 64) mod 64) 0 @
     map (\<lambda>i. ucast (drop_bit (8 * i) (word_of_nat (8 * length msg) :: 64 word))) [0..<8]"

definition le32 :: "byte list \<Rightarrow> 32 word" where
  "le32 bs = foldr (\<lambda>b w. ucast b OR push_bit 8 w) bs 0"

fun md5_words :: "byte list \<Rightarrow> 32 word list" where
  "md5_words (a # b # c # d # rest) = le32 [a, b, c, d] # md5_words rest"
| "md5_words _ = []"

definition md5_step :: "32 word list \<Rightarrow> nat \<Rightarrow> 32 word \<times> 32 word \<times> 32 word \<times> 32 word
    \<Rightarrow> 32 word \<times> 32 word \<times> 32 word \<times> 32 word" where
  "md5_step M i st =
     (case st of (A, B, C, D) \<Rightarrow>
        let F = (if i < 16 then (B AND C) OR (NOT B AND D)
                 else if i < 32 then (D AND B) OR (NOT D AND C)
                 else if i < 48 then B XOR C XOR D
                 else C XOR (B OR NOT D));
            g = (if i < 16 then i
                 else if i < 32 then (5 * i + 1) mod 16
                 else if i < 48 then (3 * i + 5) mod 16
                 else (7 * i) mod 16);
            F' = F + A + md5_K ! i + M ! g
        in (D, B + word_rotl (md5_s ! i) F', B, C))"

definition md5_block :: "32 word \<times> 32 word \<times> 32 word \<times> 32 word \<Rightarrow> 32 word list
    \<Rightarrow> 32 word \<times> 32 word \<times> 32 word \<times> 32 word" where
  "md5_block h M =
     (case h of (a0, b0, c0, d0) \<Rightarrow>
        (case fold (md5_step M) [0..<64] h of (A, B, C, D) \<Rightarrow> (a0 + A, b0 + B, c0 + C, d0 + D)))"

fun md5_blocks :: "nat \<Rightarrow> 32 word \<times> 32 word \<times> 32 word \<times> 32 word \<Rightarrow> 32 word list
    \<Rightarrow> 32 word \<times> 32 word \<times> 32 word \<times> 32 word" where
  "md5_blocks 0 h ws = h"
| "md5_blocks (Suc n) h ws = md5_blocks n (md5_block h (take 16 ws)) (drop 16 ws)"

definition le_bytes :: "32 word \<Rightarrow> byte list" where
  "le_bytes w = map (\<lambda>i. ucast (drop_bit (8 * i) w)) [0..<4]"

definition md5 :: "byte list \<Rightarrow> byte list" where
  "md5 msg =
     (let ws = md5_words (md5_pad msg)
      in case md5_blocks (length ws div 16) (0x67452301, 0xefcdab89, 0x98badcfe, 0x10325476) ws of
           (a, b, c, d) \<Rightarrow> le_bytes a @ le_bytes b @ le_bytes c @ le_bytes d)"

definition hexdigit :: "nat \<Rightarrow> char" where
  "hexdigit n = ''0123456789abcdef'' ! n"

definition EncodeToString :: "byte list \<Rightarrow> string" where
  "EncodeToString bs = concat (map (\<lambda>b. [hexdigit (unat b div 16), hexdigit (unat b mod 16)]) bs)"

section \<open>The origin client\<close>

text \<open>
  \<open>http.Header\<close> is a map from canonical keys to the values of the header.
  \<open>CanonicalMIMEHeaderKey\<close> of \<open>net/textproto\<close>: the first letter and every letter after a
  hyphen in upper case, the others in lower case; a key with a byte that is not a token
  character is returned as it is.
\<close>

type_synonym header = "string \<rightharpoonup> string list"

definition validHeaderFieldByte :: "char \<Rightarrow> bool" where
  "validHeaderFieldByte c \<longleftrightarrow>
     (let n = (of_char c :: nat)
      in (48 \<le> n \<and> n \<le> 57) \<or> (65 \<le> n \<and> n \<le> 90) \<or> (97 \<le> n \<and> n \<le> 122) \<or>
         n \<in> {33, 35, 36, 37, 38, 39, 42, 43, 45, 46, 94, 95, 96, 124, 126})"

fun canonical :: "bool \<Rightarrow> string \<Rightarrow> string" where
  "canonical upper [] = []"
| "canonical upper (c # cs) =
     (let n = (of_char c :: nat);
          c' = (if upper \<and> 97 \<le> n \<and> n \<le> 122 then char_of (n - 32)
                else if \<not> upper \<and> 65 \<le> n \<and> n \<le> 90 then char_of (n + 32)
                else c)
      in c' # canonical (c' = CHR ''-'') cs)"

definition CanonicalMIMEHeaderKey :: "string \<Rightarrow> string" where
  "CanonicalMIMEHeaderKey s = (if list_all validHeaderFieldByte s then canonical True s else s)"

definition Header_Get :: "header \<Rightarrow> string \<Rightarrow> string" where
  "Header_Get h k = (case h (CanonicalMIMEHeaderKey k) of None \<Rightarrow> [] | Some [] \<Rightarrow> [] | Some (v # vs) \<Rightarrow> v)"

definition Header_Set :: "header \<Rightarrow> string \<Rightarrow> string \<Rightarrow> header" where
  "Header_Set h k v = h(CanonicalMIMEHeaderKey k \<mapsto> [v])"

text \<open>
  The response of a \<open>GET\<close>. \<open>Body\<close> is what \<open>ioutil.ReadAll(res.Body)\<close> yields: the bytes,
  or the text of the error of the read.
\<close>

record Response =
  StatusCode :: int
  ContentLength :: int
  res_Header :: header
  Body :: "string + byte list"

text \<open>
  The functions of Go's library that the client calls and that are left open:
  \<open>mime.TypeByExtension\<close>, \<open>http.DetectContentType\<close> and
  \<open>time.Parse(http.TimeFormat, _)\<close>.
\<close>

record lib =
  TypeByExtension :: "string \<Rightarrow> string"
  DetectContentType :: "byte list \<Rightarrow> string"
  ParseTime :: "string \<Rightarrow> time option"

text \<open>\<open>filepath.Ext\<close>: the suffix from the last dot of the last element of the path.\<close>

fun Ext_from :: "string \<Rightarrow> string \<Rightarrow> string" where
  "Ext_from [] acc = []"
| "Ext_from (c # rest) acc =
     (if c = CHR ''/'' then []
      else if c = CHR ''.'' then c # acc
      else Ext_from rest (c # acc))"

definition Ext :: "string \<Rightarrow> string" where
  "Ext path = Ext_from (rev path) []"

text \<open>
  \<open>io.ReadFull\<close> on a \<open>bytes.Reader\<close>, its error dropped as the caller drops it: one
  \<open>Read\<close> yields all that is left, up to the length of the buffer. \<open>io.Copy\<close> from a
  \<open>bytes.Reader\<close> is its \<open>WriteTo\<close>: the unread bytes, and the offset at the end.
\<close>

definition ReadFull :: "nat \<Rightarrow> Reader \<Rightarrow> byte list \<times> Reader" where
  "ReadFull n r = (case Read n r of (Inl err, r1) \<Rightarrow> ([], r1) | (Inr bs, r1) \<Rightarrow> (bs, r1))"

definition WriteTo :: "Reader \<Rightarrow> byte list \<times> Reader" where
  "WriteTo r =
     (if rd_i r \<ge> int (length (rd_s r)) then ([], r)
      else let b = drop (nat (rd_i r)) (rd_s r) in (b, r\<lparr>rd_i := rd_i r + int (length b)\<rparr>))"

definition getContentType :: "lib \<Rightarrow> Response \<Rightarrow> Reader \<Rightarrow> string \<Rightarrow> (error + string) \<times> Reader" where
  "getContentType l r rd name =
     (case res_Header r ''Content-Type'' of
        None \<Rightarrow>
          (let ctype = TypeByExtension l (Ext name)
           in if ctype = [] then
                (case ReadFull 512 rd of
                   (buf, rd1) \<Rightarrow>
                     (case Seek 0 0 rd1 of
                        (Inl err, rd2) \<Rightarrow> (Inl err, rd2)
                      | (Inr pos, rd2) \<Rightarrow> (Inr (DetectContentType l buf), rd2)))
              else (Inr ctype, rd))
      | Some ctypes \<Rightarrow> (case ctypes of [] \<Rightarrow> (Inr [], rd) | c # cs \<Rightarrow> (Inr c, rd)))"

definition getModtime :: "lib \<Rightarrow> time \<Rightarrow> Response \<Rightarrow> time" where
  "getModtime l now r =
     (case ParseTime l (Header_Get (res_Header r) ''Last-Modified'') of None \<Rightarrow> now | Some t \<Rightarrow> t)"

definition Trim :: "string \<Rightarrow> string \<Rightarrow> string" where
  "Trim s cutset = rev (dropWhile (\<lambda>c. c \<in> set cutset) (rev (dropWhile (\<lambda>c. c \<in> set cutset) s)))"

definition getETag :: "Response \<Rightarrow> Reader \<Rightarrow> string \<times> Reader" where
  "getETag r rd =
     (let etag' = Trim (Header_Get (res_Header r) ''Etag'') [CHR 0x22]
      in if etag' = [] then (case WriteTo rd of (b, rd1) \<Rightarrow> (EncodeToString (md5 b), rd1))
         else (etag', rd))"

text \<open>
  \<open>Open\<close> of \<open>remoteFileSystem\<close>. \<open>Get\<close> is \<open>http.DefaultClient.Get\<close> on the state \<open>'n\<close> of
  the network: a response, or the text of the client's \<open>*url.Error\<close>. \<open>Now\<close> is
  \<open>time.Now().UTC()\<close> in that state.
\<close>

definition remoteFileSystem_Open ::
  "lib \<Rightarrow> (string \<Rightarrow> 'n \<Rightarrow> (string + Response) \<times> 'n) \<Rightarrow> ('n \<Rightarrow> time) \<Rightarrow> string \<Rightarrow> string \<Rightarrow> 'n
     \<Rightarrow> (error + File) \<times> 'n" where
  "remoteFileSystem_Open l Get Now origin name n =
     (let path = origin @ name
      in case Get path n of
           (Inl err, n1) \<Rightarrow> (Inl (GoError err), n1)
         | (Inr res, n1) \<Rightarrow>
             if StatusCode res \<noteq> 200 \<or> ContentLength res \<le> 0 then (Inl ErrMissingFile, n1)
             else (case Body res of
                     Inl err \<Rightarrow> (Inl (GoError err), n1)
                   | Inr buf \<Rightarrow>
                       (case getContentType l res (NewReader buf) name of
                          (Inl err, rd1) \<Rightarrow> (Inl err, n1)
                        | (Inr ctype, rd1) \<Rightarrow>
                            (case getETag res rd1 of
                               (etag', rd2) \<Rightarrow>
                                 (Inr \<lparr>ReadSeeker = rd2,
                                       f_fi = \<lparr>basename = path, modtime = getModtime l (Now n1) res,
                                                fi_size = Len rd2, contentType = ctype, etag = etag'\<rparr>,
                                       f_buf = Some buf\<rparr>, n1)))))"

section \<open>The serve layer\<close>

text \<open>
  What \<open>serveFile\<close> does with the response: the call \<open>http.NotFound(w, r)\<close>, which replies
  404, or the call of \<open>http.ServeContent\<close> with the headers set so far, the name, the
  modification time and the file. \<open>open\<close> is \<open>fs.Open\<close> of the filesystem served.
\<close>

datatype served = NotFound header | ServeContent header string time File

definition serveFile ::
  "(string \<Rightarrow> 's \<Rightarrow> (error + File) go \<times> 's) \<Rightarrow> header \<Rightarrow> string \<Rightarrow> 's \<Rightarrow> served go \<times> 's" where
  "serveFile open w name st =
     (case open name st of
        (Panic p, st1) \<Rightarrow> (Panic p, st1)
      | (Return (Inl err), st1) \<Rightarrow> (Return (NotFound w), st1)
      | (Return (Inr f), st1) \<Rightarrow>
          (let d = f_fi f;
               w1 = (case w ''Content-Type'' of
                       None \<Rightarrow> if contentType (f_fi f) \<noteq> [] then Header_Set w ''Content-Type'' (contentType (f_fi f)) else w
                     | Some v \<Rightarrow> w);
               w2 = (case w1 ''ETag'' of
                       None \<Rightarrow> if etag (f_fi f) \<noteq> [] then Header_Set w1 ''ETag'' (etag (f_fi f)) else w1
                     | Some v \<Rightarrow> w1)
           in (Return (ServeContent w2 (Name d) (modtime d) f), st1)))"

definition plain_lib :: lib where
  "plain_lib = \<lparr>TypeByExtension = (\<lambda>ext. []), DetectContentType = (\<lambda>b. ''text/plain; charset=utf-8''),
                ParseTime = (\<lambda>s. None)\<rparr>"

text \<open>An origin that answers every \<open>GET\<close> with the body \<open>abc\<close> and no header, and counts.\<close>

definition abc_origin :: "string \<Rightarrow> nat \<Rightarrow> (string + Response) \<times> nat" where
  "abc_origin url c =
     (Inr \<lparr>StatusCode = 200, ContentLength = 3, res_Header = Map.empty, Body = Inr (bytes_of ''abc'')\<rparr>, Suc c)"

text \<open>An origin that has no file: every \<open>GET\<close> is answered 404, and counted.\<close>

definition empty_origin :: "string \<Rightarrow> nat \<Rightarrow> (string + Response) \<times> nat" where
  "empty_origin url c =
     (Inr \<lparr>StatusCode = 404, ContentLength = 19, res_Header = Map.empty,
           Body = Inr (bytes_of ''404 page not found'')\<rparr>, Suc c)"

text \<open>
  An origin that answers every \<open>GET\<close> with the body \<open>abc\<close>, the etag \<open>v1\<close> in double
  quotes and a content type, and counts.
\<close>

definition tagged_origin :: "string \<Rightarrow> nat \<Rightarrow> (string + Response) \<times> nat" where
  "tagged_origin url c =
     (Inr \<lparr>StatusCode = 200, ContentLength = 3,
           res_Header = [''Etag'' \<mapsto> [CHR 0x22 # ''v1'' @ [CHR 0x22]], ''Content-Type'' \<mapsto> [''text/plain'']],
           Body = Inr (bytes_of ''abc'')\<rparr>, Suc c)"

text \<open>
  The headers of a response on which \<open>w.Header().Set\<close> has been called for \<open>Content-Type\<close>
  and for \<open>ETag\<close> before \<open>serveFile\<close> runs.
\<close>

definition preset_headers :: header where
  "preset_headers = Header_Set (Header_Set Map.empty ''Content-Type'' ''application/preset'') ''ETag'' ''preset''"

section \<open>Reader handles\<close>

text \<open>
  Files are heap objects: a request holds a pointer to the \<open>file\<close> that \<open>readClone\<close>
  allocated, and reads and seeks through it change the \<open>bytes.Reader\<close> of that object. The
  store maps the pointers handed out so far to their objects. A \<open>bytes.Reader\<close> never
  writes to its slice, so the slice a clone shares with the blob is held by value.
\<close>

record store =
  objects :: "nat \<rightharpoonup> File"
  next_object :: nat

definition new_readClone :: "nat \<Rightarrow> store \<Rightarrow> nat go \<times> store" where
  "new_readClone b st =
     (case objects st b of
        None \<Rightarrow> (Panic ''invalid memory address or nil pointer dereference'', st)
      | Some f \<Rightarrow>
          (case readClone f of
             Panic p \<Rightarrow> (Panic p, st)
           | Return c \<Rightarrow>
               (Return (next_object st),
                st\<lparr>objects := (objects st)(next_object st \<mapsto> c), next_object := Suc (next_object st)\<rparr>)))"

datatype cursor_op = DoRead nat | DoSeek int int

datatype cursor_result = ReadResult "error + byte list" | SeekResult "error + int"

definition reader_op :: "cursor_op \<Rightarrow> Reader \<Rightarrow> cursor_result \<times> Reader" where
  "reader_op op' r =
     (case op' of
        DoRead n \<Rightarrow> (case Read n r of (res, r1) \<Rightarrow> (ReadResult res, r1))
      | DoSeek offset whence \<Rightarrow> (case Seek offset whence r of (res, r1) \<Rightarrow> (SeekResult res, r1)))"

text \<open>A call through the pointer \<open>h\<close>; \<open>None\<close> for a pointer that was never handed out.\<close>

definition file_op :: "nat \<Rightarrow> cursor_op \<Rightarrow> store \<Rightarrow> cursor_result option \<times> store" where
  "file_op h op' st =
     (case objects st h of
        None \<Rightarrow> (None, st)
      | Some f \<Rightarrow>
          (case reader_op op' (ReadSeeker f) of
             (res, r1) \<Rightarrow> (Some res, st\<lparr>objects := (objects st)(h \<mapsto> f\<lparr>ReadSeeker := r1\<rparr>)\<rparr>)))"

text \<open>Calls of several requests, interleaved in any way, and the calls on one reader alone.\<close>

fun file_ops :: "(nat \<times> cursor_op) list \<Rightarrow> store \<Rightarrow> (nat \<times> cursor_result option) list \<times> store" where
  "file_ops [] st = ([], st)"
| "file_ops ((h, op') # rest) st =
     (case file_op h op' st of
        (res, st1) \<Rightarrow> (case file_ops rest st1 of (results, st2) \<Rightarrow> ((h, res) # results, st2)))"

fun reader_ops :: "cursor_op list \<Rightarrow> Reader \<Rightarrow> cursor_result list" where
  "reader_ops [] r = []"
| "reader_ops (op' # rest) r = (case reader_op op' r of (res, r1) \<Rightarrow> res # reader_ops rest r1)"

definition calls_of :: "nat \<Rightarrow> (nat \<times> 'a) list \<Rightarrow> 'a list" where
  "calls_of h xs = map snd (filter (\<lambda>x. fst x = h) xs)"

definition blob_store :: store where
  "blob_store = \<lparr>objects = [0 \<mapsto> newFile ''file1''], next_object = 1\<rparr>"

definition two_clones :: store where
  "two_clones = snd (new_readClone 0 (snd (new_readClone 0 blob_store)))"

definition interleaved :: "(nat \<times> cursor_op) list" where
  "interleaved = [(1, DoRead 2), (2, DoRead 5), (1, DoSeek 0 0), (1, DoRead 5), (2, DoRead 1)]"

section \<open>Admission\<close>

text \<open>What \<open>clientAddr\<close> reads of the incoming request.\<close>

record ServerRequest =
  rq_Header :: header
  RemoteAddr :: string

text \<open>
  \<open>net.SplitHostPort\<close> of Go's library, by its source: the port starts after the last
  colon; a host in brackets ends at the first closing bracket, which must stand just
  before that colon.
\<close>

definition IndexByte :: "string \<Rightarrow> char \<Rightarrow> int" where
  "IndexByte s c = (if c \<in> set s then int (length (takeWhile (\<lambda>x. x \<noteq> c) s)) else - 1)"

definition LastIndexByte :: "string \<Rightarrow> char \<Rightarrow> int" where
  "LastIndexByte s c =
     (if c \<in> set s then int (length s) - 1 - int (length (takeWhile (\<lambda>x. x \<noteq> c) (rev s))) else - 1)"

definition split_checks :: "string \<Rightarrow> string \<Rightarrow> nat \<Rightarrow> nat \<Rightarrow> int \<Rightarrow> error + string \<times> string" where
  "split_checks hostport host j k i =
     (if IndexByte (drop j hostport) (CHR ''['') \<ge> 0 then Inl (AddrError ''unexpected '[' in address'')
      else if IndexByte (drop k hostport) (CHR '']'') \<ge> 0 then Inl (AddrError ''unexpected ']' in address'')
      else Inr (host, drop (nat (i + 1)) hostport))"

definition SplitHostPort :: "string \<Rightarrow> error + string \<times> string" where
  "SplitHostPort hostport =
     (let i = LastIndexByte hostport (CHR '':'')
      in if i < 0 then Inl (AddrError ''missing port in address'')
         else if hd hostport = CHR ''['' then
           (let end' = IndexByte hostport (CHR '']'')
            in if end' < 0 then Inl (AddrError ''missing ']' in address'')
               else if end' + 1 = int (length hostport) then Inl (AddrError ''missing port in address'')
               else if end' + 1 = i then
                 split_checks hostport (take (nat end' - 1) (drop 1 hostport)) 1 (nat (end' + 1)) i
               else if hostport ! nat (end' + 1) = CHR '':'' then Inl (AddrError ''too many colons in address'')
               else Inl (AddrError ''missing port in address''))
         else
           (let host = take (nat i) hostport
            in if IndexByte host (CHR '':'') \<ge> 0 then Inl (AddrError ''too many colons in address'')
               else split_checks hostport host 0 0 i))"

definition clientAddr :: "ServerRequest \<Rightarrow> error + string" where
  "clientAddr r =
     (let addr = Header_Get (rq_Header r) ''X-Forwarded-For''
      in if addr \<noteq> [] then Inr addr
         else (case SplitHostPort (RemoteAddr r) of
                 Inl err \<Rightarrow> Inl err
               | Inr (host, port) \<Rightarrow> Inr host))"

text \<open>
  The libraries behind \<open>Ratelimiter\<close>, on a state \<open>'l\<close> of the limiter (the LRU of buckets,
  the buckets and the clock): \<open>Get\<close> and \<open>Add\<close> of \<open>golang-lru\<close>, and \<open>NewBucketWithRate\<close>
  (with \<open>FillRate\<close> 1 and \<open>Capacity\<close> 10) and \<open>Take\<close> of \<open>juju/ratelimit\<close>, which returns
  the time to wait for the tokens.
\<close>

record ('b, 'l) bucket_lib =
  buckets_Get :: "string \<Rightarrow> 'l \<Rightarrow> 'b option \<times> 'l"
  buckets_Add :: "string \<Rightarrow> 'b \<Rightarrow> 'l \<Rightarrow> 'l"
  NewBucketWithRate :: "'l \<Rightarrow> 'b \<times> 'l"
  bucket_Take :: "'b \<Rightarrow> int \<Rightarrow> 'l \<Rightarrow> int \<times> 'l"

definition Take :: "('b, 'l) bucket_lib \<Rightarrow> string \<Rightarrow> 'l \<Rightarrow> bool \<times> 'l" where
  "Take lib' key' l =
     (case buckets_Get lib' key' l of
        (None, l1) \<Rightarrow>
          (case NewBucketWithRate lib' l1 of
             (bucket, l2) \<Rightarrow>
               (case bucket_Take lib' bucket 1 (buckets_Add lib' key' bucket l2) of
                  (d, l3) \<Rightarrow> (d = 0, l3)))
      | (Some bucket, l1) \<Rightarrow> (case bucket_Take lib' bucket 1 l1 of (d, l2) \<Rightarrow> (d = 0, l2)))"

text \<open>
  \<open>ratelimitHandler\<close> around a handler \<open>h\<close> with a state \<open>'s\<close> of its own (the cache and
  what is behind it): the reply of \<open>http.Error\<close>, or what \<open>h\<close> did.
\<close>

datatype 'a reply = HttpError int string | Served 'a

definition ratelimitHandler ::
  "('b, 'l) bucket_lib \<Rightarrow> (ServerRequest \<Rightarrow> 's \<Rightarrow> 'a \<times> 's) \<Rightarrow> ServerRequest \<Rightarrow> 'l \<times> 's
     \<Rightarrow> 'a reply \<times> ('l \<times> 's)" where
  "ratelimitHandler lib' h r st =
     (case clientAddr r of
        Inl err \<Rightarrow> (HttpError 500 ''Internal Server Error'', st)
      | Inr host \<Rightarrow>
          (case Take lib' host (fst st) of
             (ok, l1) \<Rightarrow>
               if \<not> ok then (HttpError 429 ''Too many requests'', (l1, snd st))
               else (case h r (snd st) of (a, s1) \<Rightarrow> (Served a, (l1, s1)))))"

text \<open>
  The identifier as the specification words it: the first value of the header when the
  header is present, and the host of the remote address otherwise.
\<close>

definition spec_clientAddr :: "ServerRequest \<Rightarrow> error + string" where
  "spec_clientAddr r =
     (case rq_Header r ''X-Forwarded-For'' of
        Some (v # vs) \<Rightarrow> Inr v
      | _ \<Rightarrow> (case SplitHostPort (RemoteAddr r) of Inl err \<Rightarrow> Inl err | Inr (host, port) \<Rightarrow> Inr host))"

definition empty_forwarded :: ServerRequest where
  "empty_forwarded = \<lparr>rq_Header = [''X-Forwarded-For'' \<mapsto> [[]]], RemoteAddr = ''10.0.0.1:4711''\<rparr>"

text \<open>A limiter whose bucket for every client is empty: \<open>Take\<close> of the bucket asks to wait.\<close>

definition drained :: "(unit, nat) bucket_lib" where
  "drained = \<lparr>buckets_Get = (\<lambda>k l. (Some (), l)), buckets_Add = (\<lambda>k b l. l),
              NewBucketWithRate = (\<lambda>l. ((), l)), bucket_Take = (\<lambda>b n l. (1000000000, Suc l))\<rparr>"

definition forwarded :: ServerRequest where
  "forwarded = \<lparr>rq_Header = [''X-Forwarded-For'' \<mapsto> [''192.0.2.7'', ''198.51.100.1'']],
                 RemoteAddr = ''10.0.0.1:4711''\<rparr>"

section \<open>Well-formedness and the byte counter\<close>

lemma distinct_id_remove1: "distinct (map el_id l) \<Longrightarrow> distinct (map el_id (remove1 e l))"
proof (induction l)
  case Nil
  then show ?case by simp
next
  case (Cons a l)
  have sub: "set (remove1 e l) \<subseteq> set l" by (rule set_remove1_subset)
  have "el_id a \<notin> el_id ` set l" using Cons.prems by simp
  with sub have "el_id a \<notin> el_id ` set (remove1 e l)" by blast
  moreover have "distinct (map el_id (remove1 e l))" using Cons by simp
  moreover have "distinct (map el_id l)" using Cons.prems by simp
  ultimately show ?case by simp
qed

lemma distinct_id_MoveToFront:
  assumes d: "distinct (map el_id l)" and e: "e \<in> set l"
  shows "distinct (map el_id (e # remove1 e l))"
proof -
  have dl: "distinct l" and inj: "inj_on el_id (set l)"
    using d by (simp_all add: distinct_map)
  have s: "set (remove1 e l) = set l - {e}"
    using dl by (rule set_remove1_eq)
  have "el_id e \<notin> el_id ` set (remove1 e l)"
  proof
    assume a: "el_id e \<in> el_id ` set (remove1 e l)"
    from a obtain e' where 1: "el_id e = el_id e'" and 2: "e' \<in> set (remove1 e l)"
      by (rule imageE)
    from 2 have "e' \<in> set l - {e}" by (simp only: s)
    then have 3: "e' \<in> set l" and 4: "e' \<noteq> e" by simp_all
    from inj 1 e 3 have "e = e'" by (rule inj_onD)
    with 4 show False by simp
  qed
  then show ?thesis
    using distinct_id_remove1[OF d, of e] by simp
qed

lemma sum_remove1:
  fixes f :: "'a \<Rightarrow> int64"
  shows "e \<in> set l \<Longrightarrow> sum_list (map f (remove1 e l)) = sum_list (map f l) - f e"
  using sum_list_map_remove1[of e l f] by simp

lemma cache_wf_NewCache: "cache_wf (NewCache n m)"
  by (simp add: cache_wf_def NewCache_def)

lemma size_ok_NewCache: "size_ok (NewCache n m)"
  by (simp add: size_ok_def stored_size_def NewCache_def)

lemma wf_distinct: "cache_wf fs \<Longrightarrow> distinct (evictList fs)"
  unfolding cache_wf_def using distinct_map by blast

lemma wf_cache_in_list: "cache_wf fs \<Longrightarrow> cache fs k = Some e \<Longrightarrow> e \<in> set (evictList fs)"
  unfolding cache_wf_def by blast

lemma wf_cache_name: "cache_wf fs \<Longrightarrow> cache fs k = Some e \<Longrightarrow> key e = k"
  unfolding cache_wf_def by blast

lemma wf_list_cache: "cache_wf fs \<Longrightarrow> e \<in> set (evictList fs) \<Longrightarrow> cache fs (key e) = Some e"
  unfolding cache_wf_def by blast

lemma wf_id_lt: "cache_wf fs \<Longrightarrow> e \<in> set (evictList fs) \<Longrightarrow> el_id e < mc_next fs"
  unfolding cache_wf_def by blast

lemma wf_key_inj:
  assumes "cache_wf fs" "e \<in> set (evictList fs)" "e' \<in> set (evictList fs)" "key e' = key e"
  shows "e' = e"
  using wf_list_cache[OF assms(1) assms(2)] wf_list_cache[OF assms(1) assms(3)] assms(4) by simp

lemma cache_wfI:
  assumes "distinct (map el_id l)"
    and "\<And>e. e \<in> set l \<Longrightarrow> el_id e < n \<and> c (key e) = Some e"
    and "\<And>k e. c k = Some e \<Longrightarrow> e \<in> set l \<and> key e = k"
    and "evictList fs = l" "mc_next fs = n" "cache fs = c"
  shows "cache_wf fs"
  unfolding cache_wf_def assms(4-6) using assms(1-3) by blast

lemma wf_removeElement:
  assumes wf: "cache_wf fs" and e: "e \<in> set (evictList fs)"
  shows "cache_wf (removeElement e fs)"
proof -
  let ?l = "evictList fs"
  let ?c = "(cache fs)(key e := None)"
  have s: "set (remove1 e ?l) = set ?l - {e}"
    using wf_distinct[OF wf] by (rule set_remove1_eq)
  have 1: "distinct (map el_id (remove1 e ?l))"
    using wf by (simp add: cache_wf_def distinct_id_remove1)
  have 2: "el_id e' < mc_next fs \<and> ?c (key e') = Some e'" if "e' \<in> set (remove1 e ?l)" for e'
  proof -
    from that have in_l: "e' \<in> set ?l" and ne: "e' \<noteq> e" by (simp_all add: s)
    have "key e' \<noteq> key e" using wf_key_inj[OF wf e in_l] ne by blast
    then show ?thesis using wf_id_lt[OF wf in_l] wf_list_cache[OF wf in_l] by simp
  qed
  have 3: "e' \<in> set (remove1 e ?l) \<and> key e' = k" if "?c k = Some e'" for k e'
  proof -
    from that have k: "k \<noteq> key e" and c: "cache fs k = Some e'"
      by (simp_all split: if_splits)
    have "key e' = k" using wf_cache_name[OF wf c] .
    moreover have "e' \<in> set ?l" using wf_cache_in_list[OF wf c] .
    moreover have "e' \<noteq> e" using k \<open>key e' = k\<close> by auto
    ultimately show ?thesis by (simp add: s)
  qed
  show ?thesis
  proof (rule cache_wfI)
    show "distinct (map el_id (remove1 e ?l))" by (rule 1)
    show "\<And>e'. e' \<in> set (remove1 e ?l) \<Longrightarrow> el_id e' < mc_next fs \<and> ?c (key e') = Some e'"
      by (rule 2)
    show "\<And>k e'. ?c k = Some e' \<Longrightarrow> e' \<in> set (remove1 e ?l) \<and> key e' = k"
      by (rule 3)
  qed (simp_all add: removeElement_def list_Remove_def Let_def key_def fun_upd_def)
qed

lemma size_removeElement:
  assumes "size_ok fs" "e \<in> set (evictList fs)"
  shows "size_ok (removeElement e fs)"
  using assms sum_remove1[of e "evictList fs" entry_size]
  by (simp add: size_ok_def stored_size_def removeElement_def list_Remove_def Let_def entry_size_def)

lemma wf_add_delete_existing: "cache_wf fs \<Longrightarrow> cache_wf (add_delete_existing name fs)"
  by (cases "cache fs name") (simp_all add: add_delete_existing_def wf_removeElement wf_cache_in_list)

lemma absent_add_delete_existing:
  "cache_wf fs \<Longrightarrow> cache (add_delete_existing name fs) name = None"
proof (cases "cache fs name")
  case None
  then show ?thesis by (simp add: add_delete_existing_def)
next
  case (Some e)
  assume wf: "cache_wf fs"
  have "ce_name (Value e) = name" using wf_cache_name[OF wf Some] by (simp add: key_def)
  then show ?thesis using Some by (simp add: add_delete_existing_def removeElement_def Let_def)
qed

lemma size_add_delete_existing:
  "cache_wf fs \<Longrightarrow> size_ok fs \<Longrightarrow> size_ok (add_delete_existing name fs)"
  by (cases "cache fs name") (simp_all add: add_delete_existing_def size_removeElement wf_cache_in_list)

lemma wf_add_push:
  assumes wf: "cache_wf fs" and absent: "cache fs name = None"
  shows "cache_wf (add_push name f fs)"
proof -
  let ?e = "Element (mc_next fs) \<lparr>ce_file = f, ce_name = name\<rparr>"
  let ?c = "(cache fs)(name \<mapsto> ?e)"
  have nm: "key e' \<noteq> name" if "e' \<in> set (evictList fs)" for e'
    using wf_list_cache[OF wf that] absent by auto
  have "mc_next fs \<notin> el_id ` set (evictList fs)"
    using wf_id_lt[OF wf] by (metis (no_types, lifting) imageE nat_neq_iff)
  then have 1: "distinct (map el_id (?e # evictList fs))"
    using wf by (simp add: cache_wf_def)
  have 2: "el_id e' < Suc (mc_next fs) \<and> ?c (key e') = Some e'" if "e' \<in> set (?e # evictList fs)" for e'
  proof (cases "e' = ?e")
    case True
    then show ?thesis by (simp add: key_def)
  next
    case False
    then have in_l: "e' \<in> set (evictList fs)" using that by simp
    show ?thesis using nm[OF in_l] wf_id_lt[OF wf in_l] wf_list_cache[OF wf in_l] by simp
  qed
  have 3: "e' \<in> set (?e # evictList fs) \<and> key e' = k" if "?c k = Some e'" for k e'
  proof (cases "k = name")
    case True
    then show ?thesis using that by (auto simp: key_def)
  next
    case False
    then have c: "cache fs k = Some e'" using that by simp
    show ?thesis using wf_cache_in_list[OF wf c] wf_cache_name[OF wf c] by simp
  qed
  show ?thesis
  proof (rule cache_wfI)
    show "distinct (map el_id (?e # evictList fs))" by (rule 1)
    show "\<And>e'. e' \<in> set (?e # evictList fs) \<Longrightarrow> el_id e' < Suc (mc_next fs) \<and> ?c (key e') = Some e'"
      by (rule 2)
    show "\<And>k e'. ?c k = Some e' \<Longrightarrow> e' \<in> set (?e # evictList fs) \<and> key e' = k"
      by (rule 3)
  qed (simp_all add: add_push_def Let_def fun_upd_def)
qed

lemma size_add_push: "size_ok fs \<Longrightarrow> size_ok (add_push name f fs)"
  by (simp add: size_ok_def stored_size_def add_push_def Let_def entry_size_def)

lemma wf_removeOldest: "cache_wf fs \<Longrightarrow> cache_wf (removeOldest fs)"
  by (cases "evictList fs = []") (simp_all add: removeOldest_def Back_def wf_removeElement)

lemma size_removeOldest: "size_ok fs \<Longrightarrow> size_ok (removeOldest fs)"
  by (cases "evictList fs = []") (simp_all add: removeOldest_def Back_def size_removeElement)

lemma wf_add_evict: "cache_wf fs \<Longrightarrow> cache_wf (add_evict fs)"
  by (simp add: add_evict_def wf_removeOldest)

lemma size_add_evict: "size_ok fs \<Longrightarrow> size_ok (add_evict fs)"
  by (simp add: add_evict_def size_removeOldest)

lemma wf_add_register: "cache_wf fs \<Longrightarrow> cache_wf (add_register name f fs)"
  by (simp add: add_register_def cache_wf_def)

lemma size_add_register: "size_ok fs \<Longrightarrow> size_ok (add_register name f fs)"
  by (simp add: add_register_def size_ok_def stored_size_def)

lemma wf_add: "cache_wf fs \<Longrightarrow> cache_wf (snd (add name f fs))"
  by (simp add: add_def Let_def wf_add_register wf_add_evict wf_add_push wf_add_delete_existing
        absent_add_delete_existing)

lemma size_add: "cache_wf fs \<Longrightarrow> size_ok fs \<Longrightarrow> size_ok (snd (add name f fs))"
  by (simp add: add_def Let_def size_add_register size_add_evict size_add_push size_add_delete_existing)

lemma remove1_last:
  assumes "distinct l" "l \<noteq> []"
  shows "remove1 (last l) l = butlast l"
proof -
  have l: "l = butlast l @ [last l]" using assms(2) by simp
  then have "last l \<notin> set (butlast l)" using assms(1) by (metis distinct_butlast not_distinct_conv_prefix)
  then have "remove1 (last l) (butlast l @ [last l]) = butlast l"
    by (simp add: remove1_append)
  with l show ?thesis by simp
qed

lemma wf_MoveToFront:
  assumes wf: "cache_wf fs" and e: "e \<in> set (evictList fs)"
  shows "cache_wf (fs\<lparr>evictList := MoveToFront e (evictList fs)\<rparr>)"
proof -
  let ?l = "evictList fs"
  have s: "set (e # remove1 e ?l) = set ?l"
    using set_remove1_eq[OF wf_distinct[OF wf], of e] e by auto
  show ?thesis
  proof (rule cache_wfI)
    show "distinct (map el_id (e # remove1 e ?l))"
      using wf e by (simp only: cache_wf_def distinct_id_MoveToFront)
    show "\<And>e'. e' \<in> set (e # remove1 e ?l) \<Longrightarrow> el_id e' < mc_next fs \<and> cache fs (key e') = Some e'"
      unfolding s using wf_id_lt[OF wf] wf_list_cache[OF wf] by simp
    show "\<And>k e'. cache fs k = Some e' \<Longrightarrow> e' \<in> set (e # remove1 e ?l) \<and> key e' = k"
      unfolding s using wf_cache_in_list[OF wf] wf_cache_name[OF wf] by simp
  qed (simp_all add: MoveToFront_def e)
qed

lemma size_MoveToFront:
  assumes "size_ok fs" "e \<in> set (evictList fs)"
  shows "size_ok (fs\<lparr>evictList := MoveToFront e (evictList fs)\<rparr>)"
  using assms sum_remove1[of e "evictList fs" entry_size]
  by (simp add: size_ok_def stored_size_def MoveToFront_def)

lemma get_miss: "cache fs name = None \<Longrightarrow> get name fs = (Return None, fs)"
  by (simp add: get_def)

lemma get_hit:
  "cache fs name = Some e \<Longrightarrow>
   get name fs = (case readClone (ce_file (Value e)) of Panic p \<Rightarrow> Panic p | Return f \<Rightarrow> Return (Some f),
                  fs\<lparr>evictList := MoveToFront e (evictList fs)\<rparr>)"
  by (simp add: get_def Let_def split: go.splits)

lemma wf_get: "cache_wf fs \<Longrightarrow> cache_wf (snd (get name fs))"
  by (cases "cache fs name") (simp_all add: get_miss get_hit wf_MoveToFront wf_cache_in_list)

lemma size_get: "cache_wf fs \<Longrightarrow> size_ok fs \<Longrightarrow> size_ok (snd (get name fs))"
  by (cases "cache fs name") (simp_all add: get_miss get_hit size_MoveToFront wf_cache_in_list)

lemma wf_del: "cache_wf fs \<Longrightarrow> cache_wf (snd (del name fs))"
  by (cases "cache fs name") (simp_all add: del_def wf_removeElement wf_cache_in_list)

lemma size_del: "cache_wf fs \<Longrightarrow> size_ok fs \<Longrightarrow> size_ok (snd (del name fs))"
  by (cases "cache fs name") (simp_all add: del_def size_removeElement wf_cache_in_list)

lemma stored_size_bytes: "stored_size fs = word_of_int (stored_bytes fs)"
proof -
  have "sum_list (map entry_size l) = word_of_int (sum_list (map (\<lambda>e. fi_size (f_fi (ce_file (Value e)))) l))" for l
    by (induction l) (simp_all add: entry_size_def Size_def)
  then show ?thesis by (simp add: stored_size_def stored_bytes_def)
qed

lemma sint_in_range:
  assumes "- (2 ^ 63) \<le> x" "x < 2 ^ 63"
  shows "sint (word_of_int x :: int64) = x"
  using assms by (simp add: sint_sbintrunc' signed_take_bit_int_eq_self)

text \<open>
  Claim C10. Outside the critical section the byte counter \<open>size\<close> of the cache equals the
  sum of the sizes (\<open>fi.Size()\<close>) of the files stored in it: the equality holds in the new
  cache, and
  \<open>get\<close> (promotion on a hit), \<open>add\<close> (with the removal of an entry of the same key and
  the eviction over capacity) and \<open>del\<close> preserve it. The counter is an \<open>int64\<close>, so it
  is the sum modulo \<open>2 ^ 64\<close>, and the sum itself while that fits an \<open>int64\<close>.
\<close>

theorem size_counter_is_sum_of_stored_sizes:
  "size_inv (NewCache n m) \<and>
   (size_inv fs \<longrightarrow>
      size_inv (snd (get name fs)) \<and> size_inv (snd (add name f fs)) \<and> size_inv (snd (del name fs)) \<and>
      mc_size fs = word_of_int (stored_bytes fs) \<and>
      (- (2 ^ 63) \<le> stored_bytes fs \<and> stored_bytes fs < 2 ^ 63 \<longrightarrow> sint (mc_size fs) = stored_bytes fs))"
proof -
  have 0: "size_inv (NewCache n m)"
    using cache_wf_NewCache[of n m] size_ok_NewCache[of n m] by (simp add: size_inv_def size_ok_def)
  have 1: "size_inv (snd (get name fs))" "size_inv (snd (add name f fs))" "size_inv (snd (del name fs))"
    if "size_inv fs"
    using that wf_get[of fs name] size_get[of fs name] wf_add[of fs name f] size_add[of fs name f]
      wf_del[of fs name] size_del[of fs name]
    by (simp_all add: size_inv_def size_ok_def)
  have 2: "mc_size fs = word_of_int (stored_bytes fs)" if "size_inv fs"
    using that by (simp add: size_inv_def stored_size_bytes)
  have 3: "sint (mc_size fs) = stored_bytes fs"
    if "size_inv fs" "- (2 ^ 63) \<le> stored_bytes fs" "stored_bytes fs < 2 ^ 63"
    using 2[OF that(1)] sint_in_range[OF that(2,3)] by simp
  show ?thesis using 0 1 2 3 by blast
qed

theorem size_counter_witness:
  "size_inv (NewCache 2 64) \<and>
   size_inv (snd (add ''file1'' (newFile ''file1'') (NewCache 2 64))) \<and>
   mc_size (snd (add ''file1'' (newFile ''file1'') (NewCache 2 64))) = 5 \<and>
   stored_bytes (snd (add ''file1'' (newFile ''file1'') (NewCache 2 64))) = 5"
proof -
  have "mc_size (snd (add ''file1'' (newFile ''file1'') (NewCache 2 64))) = 5"
    by (simp add: add_def add_delete_existing_def add_push_def add_evict_def add_register_def
        NewCache_def newFile_def Let_def Size_def Len_def NewReader_def bytes_of_def)
  moreover have "stored_bytes (snd (add ''file1'' (newFile ''file1'') (NewCache 2 64))) = 5"
    by (simp add: add_def add_delete_existing_def add_push_def add_evict_def add_register_def
        NewCache_def newFile_def Let_def Size_def Len_def NewReader_def bytes_of_def stored_bytes_def)
  ultimately show ?thesis
    using size_counter_is_sum_of_stored_sizes[of 2 64 "NewCache 2 64" "''file1''" "newFile ''file1''"]
    by simp
qed

section \<open>Capacity and order\<close>

lemma Open_hit:
  "cache fs name = Some e \<Longrightarrow>
   Open origin name (fs, w) =
     (case readClone (ce_file (Value e)) of Panic p \<Rightarrow> Panic p | Return r \<Rightarrow> Return (Inr r),
      (fs\<lparr>evictList := MoveToFront e (evictList fs)\<rparr>, w))"
  by (simp add: Open_def get_hit split: go.splits)

lemma Open_miss_err:
  "cache fs name = None \<Longrightarrow> origin name w = (Inl err, w1) \<Longrightarrow>
   Open origin name (fs, w) = (Return (Inl err), (fs, w1))"
  by (simp add: Open_def get_miss)

lemma Open_miss_add:
  "cache fs name = None \<Longrightarrow> origin name w = (Inr f, w1) \<Longrightarrow>
   Open origin name (fs, w) =
     (case fst (add name f fs) of Panic p \<Rightarrow> Panic p | Return rv \<Rightarrow> Return (Inr rv),
      (snd (add name f fs), w1))"
  by (simp add: Open_def get_miss split: prod.splits go.splits)

lemma evictList_add_delete_existing:
  "evictList (add_delete_existing name fs) =
     (case cache fs name of None \<Rightarrow> evictList fs | Some v \<Rightarrow> remove1 v (evictList fs))"
  by (simp add: add_delete_existing_def removeElement_def list_Remove_def Let_def split: option.splits)

lemma maxItems_add_delete_existing [simp]: "maxItems (add_delete_existing name fs) = maxItems fs"
  by (simp add: add_delete_existing_def removeElement_def Let_def split: option.splits)

lemma maxItems_add_push [simp]: "maxItems (add_push name f fs) = maxItems fs"
  by (simp add: add_push_def Let_def)

lemma evictList_add_push:
  "evictList (add_push name f fs) = Element (mc_next fs) \<lparr>ce_file = f, ce_name = name\<rparr> # evictList fs"
  by (simp add: add_push_def Let_def)

lemma cache_add_push:
  "cache (add_push name f fs) = (cache fs)(name \<mapsto> Element (mc_next fs) \<lparr>ce_file = f, ce_name = name\<rparr>)"
  by (simp add: add_push_def Let_def)

lemma add_evict_over:
  assumes wf: "cache_wf fs" and over: "int (length (evictList fs)) > maxItems fs" and ne: "evictList fs \<noteq> []"
  shows "evictList (add_evict fs) = butlast (evictList fs)"
    and "cache (add_evict fs) = (cache fs)(key (last (evictList fs)) := None)"
    and "maxItems (add_evict fs) = maxItems fs"
  using over ne remove1_last[OF wf_distinct[OF wf] ne]
  by (simp_all add: add_evict_def removeOldest_def Back_def removeElement_def list_Remove_def Let_def key_def)

lemma add_evict_under:
  assumes "\<not> int (length (evictList fs)) > maxItems fs"
  shows "add_evict fs = fs"
  using assms by (simp add: add_evict_def)

lemma maxItems_add_evict [simp]: "maxItems (add_evict fs) = maxItems fs"
  by (simp add: add_evict_def removeOldest_def removeElement_def Let_def split: option.splits)

lemma evictList_add_register [simp]: "evictList (add_register name f fs) = evictList fs"
  by (simp add: add_register_def)

lemma cache_add_register [simp]: "cache (add_register name f fs) = cache fs"
  by (simp add: add_register_def)

lemma maxItems_add_register [simp]: "maxItems (add_register name f fs) = maxItems fs"
  by (simp add: add_register_def)

lemma snd_add:
  "snd (add name f fs) = add_register name f (add_evict (add_push name f (add_delete_existing name fs)))"
  by (simp add: add_def Let_def)

lemma fst_add: "fst (add name f fs) = readClone f"
  by (simp add: add_def Let_def)

lemma maxItems_add [simp]: "maxItems (snd (add name f fs)) = maxItems fs"
  by (simp add: snd_add)

lemma maxItems_get [simp]: "maxItems (snd (get name fs)) = maxItems fs"
  by (cases "cache fs name") (simp_all add: get_miss get_hit)

lemma length_MoveToFront: "length (MoveToFront e l) = length l"
proof (cases "e \<in> set l")
  case True
  then have "length l > 0" by (cases l) auto
  then show ?thesis using True by (simp add: MoveToFront_def length_remove1)
next
  case False
  then show ?thesis by (simp add: MoveToFront_def)
qed

lemma capacity_get: "within_capacity fs \<Longrightarrow> within_capacity (snd (get name fs))"
  by (cases "cache fs name") (simp_all add: get_miss get_hit within_capacity_def length_MoveToFront)

lemma butlast_bound: "l \<noteq> [] \<Longrightarrow> int (length l) \<le> n + 1 \<Longrightarrow> int (length (butlast l)) \<le> n"
  by (cases l rule: rev_cases) auto

lemma capacity_add:
  assumes wf: "cache_wf fs" and cap: "within_capacity fs"
  shows "within_capacity (snd (add name f fs))"
proof -
  let ?fs1 = "add_delete_existing name fs"
  let ?fs2 = "add_push name f ?fs1"
  have wf2: "cache_wf ?fs2"
    using wf by (simp add: wf_add_push wf_add_delete_existing absent_add_delete_existing)
  have "length (evictList ?fs1) \<le> length (evictList fs)"
    by (simp add: evictList_add_delete_existing length_remove1 split: option.splits)
  then have l2: "int (length (evictList ?fs2)) \<le> maxItems fs + 1"
    using cap by (simp add: evictList_add_push within_capacity_def)
  have ne: "evictList ?fs2 \<noteq> []" by (simp add: evictList_add_push)
  show ?thesis
  proof (cases "int (length (evictList ?fs2)) > maxItems ?fs2")
    case True
    have "int (length (butlast (evictList ?fs2))) \<le> maxItems fs"
      using ne l2 by (rule butlast_bound)
    then show ?thesis
      using add_evict_over(1)[OF wf2 True ne]
      by (simp add: within_capacity_def snd_add)
  next
    case False
    then show ?thesis
      by (simp add: within_capacity_def snd_add add_evict_under)
  qed
qed

lemma reach_inv_NewCache: "0 \<le> N \<Longrightarrow> reach_inv N (NewCache N m)"
  using cache_wf_NewCache[of N m] by (simp add: reach_inv_def within_capacity_def NewCache_def)

lemma reach_inv_hit:
  assumes "reach_inv N fs" "cache fs name = Some e"
  shows "reach_inv N (fs\<lparr>evictList := MoveToFront e (evictList fs)\<rparr>)"
  using assms wf_MoveToFront[of fs e] wf_cache_in_list[of fs name e]
  by (simp add: reach_inv_def within_capacity_def length_MoveToFront)

lemma reach_inv_add: "reach_inv N fs \<Longrightarrow> reach_inv N (snd (add name f fs))"
  using wf_add[of fs name f] capacity_add[of fs name f] by (simp add: reach_inv_def)

lemma reach_inv_Open:
  assumes inv: "reach_inv N fs"
  shows "reach_inv N (fst (snd (Open origin name (fs, w))))"
proof (cases "cache fs name")
  case (Some e)
  then show ?thesis using reach_inv_hit[OF inv Some] by (simp add: Open_hit)
next
  case None
  obtain res w1 where o: "origin name w = (res, w1)" by (cases "origin name w")
  show ?thesis
  proof (cases res)
    case (Inl err)
    then show ?thesis using inv None o by (simp add: Open_miss_err)
  next
    case (Inr f)
    then show ?thesis using reach_inv_add[OF inv, of name f] None o by (simp add: Open_miss_add)
  qed
qed

lemma reach_inv_Opens:
  "reach_inv N (fst st) \<Longrightarrow> reach_inv N (fst (Opens origin names st))"
proof (induction names arbitrary: st)
  case Nil
  then show ?case by (simp add: Opens_def)
next
  case (Cons name names)
  have "reach_inv N (fst (snd (Open origin name st)))"
    using reach_inv_Open[OF Cons.prems, of origin name "snd st"] by simp
  then have "reach_inv N (fst (Opens origin names (snd (Open origin name st))))"
    by (rule Cons.IH)
  then show ?case by (simp add: Opens_def)
qed

lemma wf_dom_cache: "cache_wf fs \<Longrightarrow> dom (cache fs) = key ` set (evictList fs)"
proof (rule set_eqI)
  fix k
  assume wf: "cache_wf fs"
  show "k \<in> dom (cache fs) \<longleftrightarrow> k \<in> key ` set (evictList fs)"
  proof
    assume "k \<in> dom (cache fs)"
    then obtain e where c: "cache fs k = Some e" by (auto simp: dom_def)
    show "k \<in> key ` set (evictList fs)"
      using wf_cache_in_list[OF wf c] wf_cache_name[OF wf c] by (rule_tac x = e in image_eqI) simp_all
  next
    assume "k \<in> key ` set (evictList fs)"
    then obtain e where e: "e \<in> set (evictList fs)" and k: "k = key e" by (rule imageE)
    show "k \<in> dom (cache fs)" using wf_list_cache[OF wf e] k by (simp add: dom_def)
  qed
qed

lemma wf_card_dom: "cache_wf fs \<Longrightarrow> card (dom (cache fs)) \<le> length (evictList fs)"
proof -
  assume wf: "cache_wf fs"
  have "card (key ` set (evictList fs)) \<le> card (set (evictList fs))" by (rule card_image_le) simp
  also have "\<dots> \<le> length (evictList fs)" by (rule card_length)
  finally show ?thesis by (simp add: wf_dom_cache[OF wf])
qed

lemma add_lists:
  assumes wf: "cache_wf fs"
  shows "(let fs2 = add_push name f (add_delete_existing name fs); fs' = snd (add name f fs)
          in if int (length (evictList fs2)) > maxItems fs
             then evictList fs' = butlast (evictList fs2) \<and>
                  cache fs' = (cache fs2)(key (last (evictList fs2)) := None)
             else evictList fs' = evictList fs2 \<and> cache fs' = cache fs2)"
proof -
  let ?fs2 = "add_push name f (add_delete_existing name fs)"
  have wf2: "cache_wf ?fs2"
    using wf by (simp add: wf_add_push wf_add_delete_existing absent_add_delete_existing)
  have ne: "evictList ?fs2 \<noteq> []" by (simp add: evictList_add_push)
  show ?thesis
  proof (cases "int (length (evictList ?fs2)) > maxItems ?fs2")
    case True
    then show ?thesis
      using add_evict_over(1,2)[OF wf2 True ne] by (simp add: snd_add Let_def)
  next
    case False
    then show ?thesis by (simp add: snd_add Let_def add_evict_under)
  qed
qed

lemma add_front:
  assumes wf: "cache_wf fs" and N: "1 \<le> maxItems fs"
  shows "evictList (snd (add name f fs)) \<noteq> [] \<and>
         hd (evictList (snd (add name f fs))) = Element (mc_next (add_delete_existing name fs)) \<lparr>ce_file = f, ce_name = name\<rparr> \<and>
         cache (snd (add name f fs)) name = Some (hd (evictList (snd (add name f fs))))"
proof -
  let ?fs1 = "add_delete_existing name fs"
  let ?fs2 = "add_push name f ?fs1"
  let ?e = "Element (mc_next ?fs1) \<lparr>ce_file = f, ce_name = name\<rparr>"
  have wf2: "cache_wf ?fs2"
    using wf by (simp add: wf_add_push wf_add_delete_existing absent_add_delete_existing)
  have l2: "evictList ?fs2 = ?e # evictList ?fs1" by (rule evictList_add_push)
  have c2: "cache ?fs2 name = Some ?e" by (simp add: cache_add_push)
  show ?thesis
  proof (cases "int (length (evictList ?fs2)) > maxItems ?fs2")
    case True
    then have ne1: "evictList ?fs1 \<noteq> []" using N l2 by auto
    have ne: "evictList ?fs2 \<noteq> []" by (simp add: l2)
    have "last (evictList ?fs2) \<in> set (evictList ?fs1)" using ne1 by (simp add: l2)
    moreover have "?e \<notin> set (evictList ?fs1)"
      using wf_distinct[OF wf2] by (simp add: l2)
    ultimately have "last (evictList ?fs2) \<noteq> ?e" by auto
    moreover have "last (evictList ?fs2) \<in> set (evictList ?fs2)" using ne by simp
    ultimately have "key (last (evictList ?fs2)) \<noteq> name"
      using wf_list_cache[OF wf2, of "last (evictList ?fs2)"] c2 by auto
    then show ?thesis
      using add_evict_over(1,2)[OF wf2 True ne] ne1 c2 by (simp add: snd_add l2)
  next
    case False
    then show ?thesis using c2 by (simp add: snd_add add_evict_under l2)
  qed
qed

lemma Open_success_front:
  assumes wf: "cache_wf fs" and N: "1 \<le> maxItems fs"
    and ok: "Open origin name (fs, w) = (Return (Inr r), st')"
  shows "evictList (fst st') \<noteq> [] \<and> key (hd (evictList (fst st'))) = name \<and>
         cache (fst st') name = Some (hd (evictList (fst st')))"
proof (cases "cache fs name")
  case (Some e)
  have in_l: "e \<in> set (evictList fs)" using wf_cache_in_list[OF wf Some] .
  have "fst st' = fs\<lparr>evictList := MoveToFront e (evictList fs)\<rparr>"
    using ok by (auto simp: Open_hit[OF Some])
  then show ?thesis using in_l Some wf_cache_name[OF wf Some] by (simp add: MoveToFront_def)
next
  case None
  obtain res w1 where o: "origin name w = (res, w1)" by (cases "origin name w")
  show ?thesis
  proof (cases res)
    case (Inl err)
    then show ?thesis using ok None o by (simp add: Open_miss_err)
  next
    case (Inr f)
    then have "fst st' = snd (add name f fs)" using ok None o by (auto simp: Open_miss_add)
    then show ?thesis using add_front[OF wf N, of name f] by (simp add: key_def)
  qed
qed

text \<open>
  Claim C1. For \<open>maxItems = N\<close> with \<open>N \<ge> 1\<close>, after any sequence of \<open>Open\<close> calls on the
  new cache (whatever the origin answers) the ordering list, and so the map, holds at most
  \<open>N\<close> entries. An insert in such a state pushes the new element at the front, after
  removing an entry of the same key; when the list is then longer than \<open>N\<close>, the result is
  that list without its last element and the map without that element's key, and nothing
  else is removed. The entry of a successful \<open>Open\<close>, inserted or hit, is the front of the
  list.
\<close>

theorem lru_capacity_bound_and_mru_order:
  assumes N: "1 \<le> N" and st: "st = Opens origin names (NewCache N m, w)"
  shows "int (length (evictList (fst st))) \<le> N \<and> int (card (dom (cache (fst st)))) \<le> N \<and>
         (\<forall>name f. let fs2 = add_push name f (add_delete_existing name (fst st));
                        fs' = snd (add name f (fst st))
                    in if int (length (evictList fs2)) > N
                       then evictList fs' = butlast (evictList fs2) \<and>
                            cache fs' = (cache fs2)(key (last (evictList fs2)) := None)
                       else evictList fs' = evictList fs2 \<and> cache fs' = cache fs2) \<and>
         (\<forall>name r st'. Open origin name st = (Return (Inr r), st') \<longrightarrow>
            evictList (fst st') \<noteq> [] \<and> key (hd (evictList (fst st'))) = name \<and>
            cache (fst st') name = Some (hd (evictList (fst st'))))"
proof -
  have "reach_inv N (fst (NewCache N m, w))" using N by (simp add: reach_inv_NewCache)
  then have "reach_inv N (fst st)" unfolding st by (rule reach_inv_Opens)
  then have wf: "cache_wf (fst st)" and cap: "within_capacity (fst st)" and mx: "maxItems (fst st) = N"
    by (simp_all add: reach_inv_def)
  have a: "int (length (evictList (fst st))) \<le> N" using cap mx by (simp add: within_capacity_def)
  have b: "int (card (dom (cache (fst st)))) \<le> N" using wf_card_dom[OF wf] a by linarith
  have c: "let fs2 = add_push name f (add_delete_existing name (fst st));
               fs' = snd (add name f (fst st))
           in if int (length (evictList fs2)) > N
              then evictList fs' = butlast (evictList fs2) \<and>
                   cache fs' = (cache fs2)(key (last (evictList fs2)) := None)
              else evictList fs' = evictList fs2 \<and> cache fs' = cache fs2" for name f
    using add_lists[OF wf, of name f] unfolding mx .
  have d: "evictList (fst st') \<noteq> [] \<and> key (hd (evictList (fst st'))) = name \<and>
           cache (fst st') name = Some (hd (evictList (fst st')))"
    if "Open origin name st = (Return (Inr r), st')" for name r st'
  proof -
    have o: "Open origin name (fst st, snd st) = (Return (Inr r), st')" using that by simp
    have N': "1 \<le> maxItems (fst st)" using N mx by simp
    show ?thesis using wf N' o by (rule Open_success_front)
  qed
  show ?thesis using a b c d by blast
qed

section \<open>Hits and replacements\<close>

lemma cache_add_name:
  assumes wf: "cache_wf fs"
  shows "cache (snd (add name f fs)) name = None \<or>
         cache (snd (add name f fs)) name =
           Some (Element (mc_next (add_delete_existing name fs)) \<lparr>ce_file = f, ce_name = name\<rparr>)"
  using add_lists[OF wf, of name f] by (auto simp: Let_def cache_add_push split: if_splits)

lemma readClone_Return:
  "readClone f = Return r \<Longrightarrow> f_buf f = Some (rd_s (ReadSeeker r)) \<and> rd_i (ReadSeeker r) = 0 \<and> f_fi r = f_fi f"
  by (auto simp: readClone_def NewReader_def split: option.splits)

lemma Open_again_hit:
  assumes wf1: "cache_wf fs1" and c: "cache fs1 k = Some e" and rc: "readClone (ce_file (Value e)) = Return r"
  shows "\<exists>fs2. (\<forall>origin'. Open origin' k (fs1, w1) = (Return (Inr r), (fs2, w1))) \<and>
           evictList fs2 = e # remove1 e (evictList fs1) \<and> cache fs2 = cache fs1 \<and> set (evictList fs2) = set (evictList fs1)"
proof -
  let ?fs2 = "fs1\<lparr>evictList := MoveToFront e (evictList fs1)\<rparr>"
  have in_l: "e \<in> set (evictList fs1)" using wf_cache_in_list[OF wf1 c] .
  have "\<forall>origin'. Open origin' k (fs1, w1) = (Return (Inr r), (?fs2, w1))"
    using rc by (simp add: Open_hit[OF c])
  moreover have "evictList ?fs2 = e # remove1 e (evictList fs1)" using in_l by (simp add: MoveToFront_def)
  moreover have "cache ?fs2 = cache fs1" by simp
  moreover have "set (evictList ?fs2) = set (evictList fs1)"
    using in_l set_remove1_eq[OF wf_distinct[OF wf1], of e] by (auto simp: MoveToFront_def)
  ultimately show ?thesis by blast
qed

text \<open>
  Claim C2. After a successful \<open>Open(k)\<close> in a well-formed cache, the key \<open>k\<close> is cached
  whenever \<open>maxItems \<ge> 1\<close> (with \<open>maxItems \<le> 0\<close> the insert evicts its own entry), and as long
  as the entry has not been evicted the next \<open>Open(k)\<close> succeeds for every origin, without
  applying it: the state of the origin (its fetch counters) is the same before and after.
  The entry is then moved to the front of the list, the others keep their order, the map
  is unchanged, and the reader returned is
  a read clone of the cached blob: at offset 0 over the blob's bytes, equal to the reader
  the first call returned.
\<close>

theorem repeated_open_is_a_hit:
  assumes wf: "cache_wf fs"
    and first: "Open origin k (fs, w) = (Return (Inr r1), (fs1, w1))"
  shows "(1 \<le> maxItems fs \<longrightarrow> cache fs1 k \<noteq> None) \<and>
         (\<forall>e. cache fs1 k = Some e \<longrightarrow>
            readClone (ce_file (Value e)) = Return r1 \<and>
            f_buf (ce_file (Value e)) = Some (rd_s (ReadSeeker r1)) \<and> rd_i (ReadSeeker r1) = 0 \<and>
            (\<exists>fs2. (\<forall>origin'. Open origin' k (fs1, w1) = (Return (Inr r1), (fs2, w1))) \<and>
                   evictList fs2 = e # remove1 e (evictList fs1) \<and> cache fs2 = cache fs1 \<and>
                   set (evictList fs2) = set (evictList fs1)))"
proof (cases "cache fs k")
  case (Some e0)
  have fs1: "fs1 = fs\<lparr>evictList := MoveToFront e0 (evictList fs)\<rparr>"
    and rc: "readClone (ce_file (Value e0)) = Return r1"
    using first by (auto simp: Open_hit[OF Some] split: go.splits)
  have wf1: "cache_wf fs1"
    unfolding fs1 using wf wf_cache_in_list[OF wf Some] by (rule wf_MoveToFront)
  have c1: "cache fs1 k = Some e0" using Some by (simp add: fs1)
  show ?thesis
    using c1 rc readClone_Return[OF rc] Open_again_hit[OF wf1 c1 rc, of w1] by simp
next
  case None
  obtain res w' where o: "origin k w = (res, w')" by (cases "origin k w")
  show ?thesis
  proof (cases res)
    case (Inl err)
    then show ?thesis using first None o by (simp add: Open_miss_err)
  next
    case (Inr f)
    have fs1: "fs1 = snd (add k f fs)" and rc: "readClone f = Return r1"
      using first None o Inr by (auto simp: Open_miss_add fst_add split: go.splits)
    have wf1: "cache_wf fs1" unfolding fs1 using wf by (rule wf_add)
    have a: "1 \<le> maxItems fs \<longrightarrow> cache fs1 k \<noteq> None"
      using add_front[OF wf, of k f] by (simp add: fs1)
    have b: "readClone (ce_file (Value e)) = Return r1 \<and>
            f_buf (ce_file (Value e)) = Some (rd_s (ReadSeeker r1)) \<and> rd_i (ReadSeeker r1) = 0 \<and>
            (\<exists>fs2. (\<forall>origin'. Open origin' k (fs1, w1) = (Return (Inr r1), (fs2, w1))) \<and>
                   evictList fs2 = e # remove1 e (evictList fs1) \<and> cache fs2 = cache fs1 \<and>
                   set (evictList fs2) = set (evictList fs1))"
      if c1: "cache fs1 k = Some e" for e
    proof -
      have "ce_file (Value e) = f" using cache_add_name[OF wf, of k f] c1 by (auto simp: fs1)
      then have rc': "readClone (ce_file (Value e)) = Return r1" using rc by simp
      show ?thesis using rc' readClone_Return[OF rc'] Open_again_hit[OF wf1 c1 rc', of w1] by simp
    qed
    show ?thesis using a b by blast
  qed
qed

text \<open>
  Claim C7. An insert of a key that is present first removes the existing element: it is
  taken off the list, its key is deleted from the map, and the invalidator's record is
  deleted by \<open>Del\<close> (the key is marked removed). Then a new element, with an identity that
  no element of the list has, is pushed at the front and put in the map, and after the
  capacity check the entry is registered by \<open>Add\<close> with the metadata of the new file. The
  call gives what the insert gives in the cache without the old entry.
\<close>

theorem add_replaces_existing_entry:
  assumes wf: "cache_wf fs" and present: "cache fs name = Some v"
  shows "let fs1 = removeElement v fs; fs2 = add_push name f fs1; fs' = snd (add name f fs);
             new = Element (mc_next fs) \<lparr>ce_file = f, ce_name = name\<rparr>
         in v \<notin> set (evictList fs1) \<and> evictList fs1 = remove1 v (evictList fs) \<and>
            cache fs1 = (cache fs)(name := None) \<and>
            invalidator fs1 = Del (Value v) (invalidator fs) \<and>
            ci_items (invalidator fs1) name = None \<and> name \<in> ci_removed (invalidator fs1) \<and>
            evictList fs2 = new # evictList fs1 \<and> cache fs2 = (cache fs1)(name \<mapsto> new) \<and>
            el_id new \<notin> el_id ` set (evictList fs) \<and>
            fs' = add_register name f (add_evict fs2) \<and>
            invalidator fs' = Add \<lparr>ce_file = f, ce_name = name\<rparr> (invalidator (add_evict fs2)) \<and>
            ci_items (invalidator fs') name = Some (f_fi f) \<and> name \<in> ci_added (invalidator fs') \<and>
            add name f fs = add name f fs1"
proof -
  let ?fs1 = "removeElement v fs"
  have nm: "ce_name (Value v) = name" using wf_cache_name[OF wf present] by (simp add: key_def)
  have in_l: "v \<in> set (evictList fs)" using wf_cache_in_list[OF wf present] .
  have d1: "add_delete_existing name fs = ?fs1" using present by (simp add: add_delete_existing_def)
  have l1: "evictList ?fs1 = remove1 v (evictList fs)"
    by (simp add: removeElement_def list_Remove_def Let_def)
  have 1: "v \<notin> set (evictList ?fs1)"
    using set_remove1_eq[OF wf_distinct[OF wf], of v] by (simp add: l1)
  have c1: "cache ?fs1 = (cache fs)(name := None)" using nm by (simp add: removeElement_def Let_def)
  have i1: "invalidator ?fs1 = Del (Value v) (invalidator fs)" by (simp add: removeElement_def Let_def)
  have n1: "mc_next ?fs1 = mc_next fs" by (simp add: removeElement_def Let_def)
  have fresh: "mc_next fs \<notin> el_id ` set (evictList fs)"
  proof
    assume "mc_next fs \<in> el_id ` set (evictList fs)"
    then obtain e where "mc_next fs = el_id e" "e \<in> set (evictList fs)" by (rule imageE)
    then show False using wf_id_lt[OF wf, of e] by simp
  qed
  have d2: "add_delete_existing name ?fs1 = ?fs1" by (simp add: add_delete_existing_def c1)
  have same: "add name f fs = add name f ?fs1" by (simp add: add_def d1 d2)
  have s': "snd (add name f fs) = add_register name f (add_evict (add_push name f ?fs1))"
    by (simp add: snd_add d1)
  have i': "invalidator (snd (add name f fs)) =
             Add \<lparr>ce_file = f, ce_name = name\<rparr> (invalidator (add_evict (add_push name f ?fs1)))"
    by (simp add: s' add_register_def)
  have it: "ci_items (invalidator (snd (add name f fs))) name = Some (f_fi f)"
    and ad: "name \<in> ci_added (invalidator (snd (add name f fs)))"
    by (simp_all add: i' Add_def)
  have rm: "ci_items (invalidator ?fs1) name = None" "name \<in> ci_removed (invalidator ?fs1)"
    using nm by (simp_all add: i1 Del_def)
  have l2: "evictList (add_push name f ?fs1) = Element (mc_next fs) \<lparr>ce_file = f, ce_name = name\<rparr> # evictList ?fs1"
    by (simp add: evictList_add_push n1)
  have c2: "cache (add_push name f ?fs1) = (cache ?fs1)(name \<mapsto> Element (mc_next fs) \<lparr>ce_file = f, ce_name = name\<rparr>)"
    by (simp add: cache_add_push n1)
  have fresh': "el_id (Element (mc_next fs) \<lparr>ce_file = f, ce_name = name\<rparr>) \<notin> el_id ` set (evictList fs)"
    using fresh by simp
  show ?thesis
    unfolding Let_def
    using 1 l1 c1 i1 rm l2 c2 fresh' s' i' it ad same by (intro conjI)
qed

section \<open>The cache on the test filesystem\<close>

lemmas cache_eval = Open_def get_def add_def add_delete_existing_def add_push_def add_evict_def
  add_register_def removeOldest_def removeElement_def Back_def list_Remove_def MoveToFront_def
  Add_def Del_def NewCache_def newCacheInvalidator_def readClone_def NewReader_def Len_def Size_def
  fakeFs_Open_def newFakeFs_def two_files_def newFile_def bytes_of_def key_def Let_def

theorem lru_capacity_witness:
  "int (length (evictList (fst (Opens fakeFs_Open [''file1'', ''file2''] (NewCache 1 64, two_files))))) \<le> 1 \<and>
   map key (evictList (fst (Opens fakeFs_Open [''file1'', ''file2''] (NewCache 1 64, two_files)))) = [''file2''] \<and>
   openCnt (snd (Opens fakeFs_Open [''file1'', ''file2''] (NewCache 1 64, two_files))) = 2"
proof -
  have "int (length (evictList (fst (Opens fakeFs_Open [''file1'', ''file2''] (NewCache 1 64, two_files))))) \<le> 1"
    using lru_capacity_bound_and_mru_order[of 1 _ fakeFs_Open "[''file1'', ''file2'']" 64 two_files, OF _ refl]
    by simp
  moreover have "map key (evictList (fst (Opens fakeFs_Open [''file1'', ''file2''] (NewCache 1 64, two_files)))) = [''file2''] \<and>
   openCnt (snd (Opens fakeFs_Open [''file1'', ''file2''] (NewCache 1 64, two_files))) = 2"
    by (simp add: Opens_def cache_eval)
  ultimately show ?thesis by simp
qed

lemma first_open_value:
  "first_open =
     (Return (Inr \<lparr>ReadSeeker = \<lparr>rd_s = bytes_of ''file1'', rd_i = 0\<rparr>, f_fi = f_fi (newFile ''file1''), f_buf = None\<rparr>),
      (fst (snd first_open), snd (snd first_open)))"
  by (simp add: first_open_def cache_eval)

theorem repeated_open_witness:
  "fst first_open = Return (Inr \<lparr>ReadSeeker = \<lparr>rd_s = bytes_of ''file1'', rd_i = 0\<rparr>,
                               f_fi = f_fi (newFile ''file1''), f_buf = None\<rparr>) \<and>
   fst (Open fakeFs_Open ''file1'' (snd first_open)) = fst first_open \<and>
   snd (snd (Open fakeFs_Open ''file1'' (snd first_open))) = snd (snd first_open) \<and>
   openCnt (snd (snd first_open)) = 1"
proof -
  let ?r = "\<lparr>ReadSeeker = \<lparr>rd_s = bytes_of ''file1'', rd_i = 0\<rparr>, f_fi = f_fi (newFile ''file1''), f_buf = None\<rparr>"
  let ?fs1 = "fst (snd first_open)" and ?w1 = "snd (snd first_open)"
  have first: "Open fakeFs_Open ''file1'' (NewCache 2 64, two_files) = (Return (Inr ?r), (?fs1, ?w1))"
    using first_open_value by (simp add: first_open_def)
  note th = repeated_open_is_a_hit[OF cache_wf_NewCache first]
  have "1 \<le> maxItems (NewCache 2 64)" by (simp add: NewCache_def)
  with th[THEN conjunct1] have "cache ?fs1 ''file1'' \<noteq> None" by (rule mp)
  then obtain e where e: "cache ?fs1 ''file1'' = Some e" by (cases "cache ?fs1 ''file1''") simp_all
  have cnt: "openCnt ?w1 = 1" by (simp add: first_open_def cache_eval)
  from th[THEN conjunct2, rule_format, OF e, THEN conjunct2, THEN conjunct2, THEN conjunct2]
  show ?thesis
  proof (elim exE conjE)
    fix fs2
    assume "\<forall>origin'. Open origin' ''file1'' (?fs1, ?w1) = (Return (Inr ?r), (fs2, ?w1))"
    then have "Open fakeFs_Open ''file1'' (?fs1, ?w1) = (Return (Inr ?r), (fs2, ?w1))" by (rule spec)
    then have again: "Open fakeFs_Open ''file1'' (snd first_open) = (Return (Inr ?r), (fs2, ?w1))" by simp
    have f1: "fst first_open = Return (Inr ?r)" by (subst first_open_value) simp
    show ?thesis using f1 cnt by (simp add: again)
  qed
qed

theorem add_replaces_witness:
  "cache one_cached ''file1'' = Some (Element 0 \<lparr>ce_file = newFile ''file1'', ce_name = ''file1''\<rparr>) \<and>
   evictList (snd (add ''file1'' (newFile ''file2'') one_cached)) =
     [Element 1 \<lparr>ce_file = newFile ''file2'', ce_name = ''file1''\<rparr>] \<and>
   ci_items (invalidator (snd (add ''file1'' (newFile ''file2'') one_cached))) ''file1'' = Some (f_fi (newFile ''file2'')) \<and>
   ''file1'' \<in> ci_removed (invalidator (snd (add ''file1'' (newFile ''file2'') one_cached)))"
proof -
  have wf: "cache_wf one_cached" unfolding one_cached_def using cache_wf_NewCache by (rule wf_add)
  have c: "cache one_cached ''file1'' = Some (Element 0 \<lparr>ce_file = newFile ''file1'', ce_name = ''file1''\<rparr>)"
    by (simp add: one_cached_def add_def add_delete_existing_def add_push_def add_evict_def
        add_register_def NewCache_def Let_def)
  note th = add_replaces_existing_entry[OF wf c, of "newFile ''file2''"]
  have it: "ci_items (invalidator (snd (add ''file1'' (newFile ''file2'') one_cached))) ''file1'' = Some (f_fi (newFile ''file2''))"
    using th unfolding Let_def by (elim conjE)
  have l: "evictList (snd (add ''file1'' (newFile ''file2'') one_cached)) =
     [Element 1 \<lparr>ce_file = newFile ''file2'', ce_name = ''file1''\<rparr>] \<and>
     ''file1'' \<in> ci_removed (invalidator (snd (add ''file1'' (newFile ''file2'') one_cached)))"
    by (simp add: one_cached_def add_def add_delete_existing_def add_push_def add_evict_def
        add_register_def NewCache_def Let_def removeElement_def list_Remove_def Add_def Del_def
        newCacheInvalidator_def)
  show ?thesis using c it l by simp
qed

section \<open>A pass of the sweep\<close>

lemma check_cases:
  "Do (head_request fmt fi) n = (a, n1) \<Longrightarrow>
   check fmt Do fi n =
     ((case a of Inl err \<Rightarrow> (False, Some err)
       | Inr s \<Rightarrow> if s = 304 then (True, None) else if s = 429 \<or> s = 408 then (False, Some ErrRetry) else (False, None)),
      n1)"
  by (simp add: check_def split: sum.splits)

lemma sweep_step:
  assumes "Do (head_request fmt fi) n = (a, n1)"
  shows "sweep fmt Do ((name, fi) # rest) (fs, n) =
           sweep fmt Do rest (if evicts a then snd (del name fs) else fs, n1)"
proof -
  have c: "check fmt Do fi n =
     ((case a of Inl err \<Rightarrow> (False, Some err)
       | Inr s \<Rightarrow> if s = 304 then (True, None) else if s = 429 \<or> s = 408 then (False, Some ErrRetry) else (False, None)),
      n1)" using assms by (rule check_cases)
  show ?thesis by (cases a) (simp_all add: c evicts_def)
qed

lemma sweep_eq:
  "sweep fmt Do entries (fs, n) =
     (fold (\<lambda>k fs'. snd (del k fs')) (invalid_names fmt Do entries n) fs,
      snd (replies Do (requests_of fmt entries) n))"
proof (induction entries arbitrary: fs n)
  case Nil
  then show ?case by (simp add: requests_of_def)
next
  case (Cons x entries)
  obtain name fi where x: "x = (name, fi)" by (cases x)
  obtain a n1 where d: "Do (head_request fmt fi) n = (a, n1)" by (cases "Do (head_request fmt fi) n")
  let ?fs1 = "if evicts a then snd (del name fs) else fs"
  have "sweep fmt Do (x # entries) (fs, n) = sweep fmt Do entries (?fs1, n1)"
    unfolding x using d by (rule sweep_step)
  also have "\<dots> = (fold (\<lambda>k fs'. snd (del k fs')) (invalid_names fmt Do entries n1) ?fs1,
                      snd (replies Do (requests_of fmt entries) n1))"
    by (rule Cons.IH)
  also have "\<dots> = (fold (\<lambda>k fs'. snd (del k fs')) (invalid_names fmt Do (x # entries) n) fs,
                      snd (replies Do (requests_of fmt (x # entries)) n))"
    by (simp add: x d requests_of_def split: prod.splits)
  finally show ?case .
qed

lemma del_cache: "cache_wf fs \<Longrightarrow> cache (snd (del k fs)) = (cache fs)(k := None)"
proof (cases "cache fs k")
  case None
  then have "(cache fs)(k := None) = cache fs" by (auto simp: fun_eq_iff)
  then show ?thesis using None by (simp add: del_def)
next
  case (Some e)
  assume wf: "cache_wf fs"
  have "ce_name (Value e) = k" using wf_cache_name[OF wf Some] by (simp add: key_def)
  then show ?thesis using Some by (simp add: del_def removeElement_def Let_def)
qed

lemma fold_del:
  "cache_wf fs \<Longrightarrow>
   cache_wf (fold (\<lambda>k fs'. snd (del k fs')) ks fs) \<and>
   cache (fold (\<lambda>k fs'. snd (del k fs')) ks fs) = (\<lambda>k. if k \<in> set ks then None else cache fs k)"
proof (induction ks arbitrary: fs)
  case Nil
  then show ?case by simp
next
  case (Cons k ks)
  have wf1: "cache_wf (snd (del k fs))" using Cons.prems by (rule wf_del)
  show ?case
    using Cons.IH[OF wf1] del_cache[OF Cons.prems, of k] by (auto simp: fun_eq_iff)
qed

lemma invalid_names_subset: "set (invalid_names fmt Do entries n) \<subseteq> fst ` set entries"
proof (induction entries arbitrary: n)
  case Nil
  then show ?case by simp
next
  case (Cons x entries)
  obtain name fi where x: "x = (name, fi)" by (cases x)
  obtain a n1 where d: "Do (head_request fmt fi) n = (a, n1)" by (cases "Do (head_request fmt fi) n")
  show ?case using Cons.IH[of n1] by (auto simp: x d)
qed

lemma invalid_names_iff:
  assumes "distinct (map fst entries)" "i < length entries"
  shows "fst (entries ! i) \<in> set (invalid_names fmt Do entries n) \<longleftrightarrow>
         evicts (fst (replies Do (requests_of fmt entries) n) ! i)"
  using assms
proof (induction entries arbitrary: n i)
  case Nil
  then show ?case by simp
next
  case (Cons x entries)
  obtain name fi where x: "x = (name, fi)" by (cases x)
  obtain a n1 where d: "Do (head_request fmt fi) n = (a, n1)" by (cases "Do (head_request fmt fi) n")
  obtain as n2 where r: "replies Do (requests_of fmt entries) n1 = (as, n2)"
    by (cases "replies Do (requests_of fmt entries) n1")
  have notin: "name \<notin> fst ` set entries" using Cons.prems(1) by (simp add: x)
  then have notinv: "name \<notin> set (invalid_names fmt Do entries n1)"
    using invalid_names_subset[of fmt Do entries n1] by blast
  show ?case
  proof (cases i)
    case 0
    then show ?thesis using notinv r by (simp add: x d requests_of_def)
  next
    case (Suc j)
    then have j: "j < length entries" using Cons.prems(2) by simp
    have d': "distinct (map fst entries)" using Cons.prems(1) by simp
    have "fst (entries ! j) \<noteq> name" using notin j by (metis image_eqI nth_mem)
    then show ?thesis
      using Cons.IH[OF d' j, of n1] r Suc by (simp add: x d requests_of_def)
  qed
qed

lemma sweep_by_status:
  assumes wf: "cache_wf fs" and names: "distinct (map fst entries)"
    and run: "sweep fmt Do entries (fs, n) = (fs', n')"
    and answers: "replies Do (map (\<lambda>(name, fi). head_request fmt fi) entries) n = (as, n'')"
  shows "n' = n'' \<and> length as = length entries \<and>
         (\<forall>i < length entries.
            (as ! i = Inr 304 \<longrightarrow> cache fs' (fst (entries ! i)) = cache fs (fst (entries ! i))) \<and>
            (as ! i = Inr 408 \<or> as ! i = Inr 429 \<longrightarrow> cache fs' (fst (entries ! i)) = cache fs (fst (entries ! i))) \<and>
            (\<forall>err. as ! i = Inl err \<longrightarrow> cache fs' (fst (entries ! i)) = cache fs (fst (entries ! i))) \<and>
            (\<forall>s. as ! i = Inr s \<and> s \<noteq> 304 \<and> s \<noteq> 408 \<and> s \<noteq> 429 \<longrightarrow> cache fs' (fst (entries ! i)) = None))"
proof -
  have r: "replies Do (requests_of fmt entries) n = (as, n'')" using answers by (simp add: requests_of_def)
  have fs': "fs' = fold (\<lambda>k fs'. snd (del k fs')) (invalid_names fmt Do entries n) fs" and n': "n' = n''"
    using run r by (simp_all add: sweep_eq)
  have c: "cache fs' = (\<lambda>k. if k \<in> set (invalid_names fmt Do entries n) then None else cache fs k)"
    unfolding fs' using fold_del[OF wf] by blast
  have len: "length (fst (replies Do rs m)) = length rs" for rs m
  proof (induction rs arbitrary: m)
    case Nil
    then show ?case by simp
  next
    case (Cons q rs)
    obtain a m1 where d: "Do q m = (a, m1)" by (cases "Do q m")
    obtain bs m2 where r: "replies Do rs m1 = (bs, m2)" by (cases "replies Do rs m1")
    show ?case using Cons[of m1] by (simp add: d r)
  qed
  have l: "length as = length entries" using len[of "requests_of fmt entries" n] r by (simp add: requests_of_def)
  have main: "cache fs' (fst (entries ! i)) = (if evicts (as ! i) then None else cache fs (fst (entries ! i)))"
    if "i < length entries" for i
    using invalid_names_iff[OF names that, of fmt Do n] r by (simp add: c)
  show ?thesis using n' l main by (auto simp: evicts_def)
qed

lemma filter_eq_single: "distinct l \<Longrightarrow> e \<in> set l \<Longrightarrow> filter (\<lambda>x. x = e) l = [e]"
proof (induction l)
  case Nil
  then show ?case by simp
next
  case (Cons a l)
  show ?case
  proof (cases "a = e")
    case True
    then have "e \<notin> set l" using Cons.prems(1) by simp
    then have "filter (\<lambda>x. x = e) l = []" by (auto simp: filter_empty_conv)
    then show ?thesis using True by simp
  next
    case False
    then show ?thesis using Cons by simp
  qed
qed

lemma wf_filter_key:
  assumes wf: "cache_wf fs"
  shows "filter (\<lambda>x. key x = k) (evictList fs) = (case cache fs k of None \<Rightarrow> [] | Some e \<Rightarrow> [e])"
    and "filter (\<lambda>x. key x \<noteq> k) (evictList fs) = (case cache fs k of None \<Rightarrow> evictList fs | Some e \<Rightarrow> remove1 e (evictList fs))"
proof -
  have d: "distinct (evictList fs)" using wf by (rule wf_distinct)
  have own: "cache fs (key x) = Some x" if "x \<in> set (evictList fs)" for x
    using wf that by (rule wf_list_cache)
  show "filter (\<lambda>x. key x = k) (evictList fs) = (case cache fs k of None \<Rightarrow> [] | Some e \<Rightarrow> [e])"
  proof (cases "cache fs k")
    case None
    have "filter (\<lambda>x. key x = k) (evictList fs) = []"
    proof (simp only: filter_empty_conv, rule ballI, rule notI)
      fix x assume "x \<in> set (evictList fs)" "key x = k"
      then show False using own[of x] None by simp
    qed
    then show ?thesis using None by simp
  next
    case (Some e)
    have e: "e \<in> set (evictList fs)" "key e = k"
      using wf_cache_in_list[OF wf Some] wf_cache_name[OF wf Some] by simp_all
    have "filter (\<lambda>x. key x = k) (evictList fs) = filter (\<lambda>x. x = e) (evictList fs)"
    proof (rule filter_cong[OF refl])
      fix x assume "x \<in> set (evictList fs)"
      then have "cache fs (key x) = Some x" by (rule own)
      then show "(key x = k) = (x = e)" using Some e(2) by (metis option.inject)
    qed
    also have "\<dots> = [e]" using d e(1) by (rule filter_eq_single)
    finally show ?thesis using Some by simp
  qed
  show "filter (\<lambda>x. key x \<noteq> k) (evictList fs) = (case cache fs k of None \<Rightarrow> evictList fs | Some e \<Rightarrow> remove1 e (evictList fs))"
  proof (cases "cache fs k")
    case None
    have "filter (\<lambda>x. key x \<noteq> k) (evictList fs) = evictList fs"
    proof (simp only: filter_id_conv, rule ballI, rule notI)
      fix x assume "x \<in> set (evictList fs)" "key x = k"
      then show False using own[of x] None by simp
    qed
    then show ?thesis using None by simp
  next
    case (Some e)
    have e: "e \<in> set (evictList fs)" "key e = k"
      using wf_cache_in_list[OF wf Some] wf_cache_name[OF wf Some] by simp_all
    have "filter (\<lambda>x. key x \<noteq> k) (evictList fs) = filter (\<lambda>x. e \<noteq> x) (evictList fs)"
    proof (rule filter_cong[OF refl])
      fix x assume "x \<in> set (evictList fs)"
      then have "cache fs (key x) = Some x" by (rule own)
      then show "(key x \<noteq> k) = (e \<noteq> x)" using Some e(2) by (metis option.inject)
    qed
    also have "\<dots> = remove1 e (evictList fs)"
      using d by (simp add: distinct_remove1_removeAll removeAll_filter_not_eq)
    finally show ?thesis using Some by simp
  qed
qed

lemma del_eq:
  assumes wf: "cache_wf fs"
  shows "snd (del k fs) =
     fs\<lparr>evictList := filter (\<lambda>x. key x \<noteq> k) (evictList fs),
        mc_size := mc_size fs - sum_list (map entry_size (filter (\<lambda>x. key x = k) (evictList fs))),
        cache := (cache fs)(k := None),
        invalidator := (invalidator fs)
          \<lparr>ci_items := (\<lambda>k'. if k' \<in> key ` set (filter (\<lambda>x. key x = k) (evictList fs)) then None
                            else ci_items (invalidator fs) k'),
           ci_removed := ci_removed (invalidator fs) \<union> key ` set (filter (\<lambda>x. key x = k) (evictList fs)),
           ci_lastmod := ci_lastmod (invalidator fs) + of_nat (length (filter (\<lambda>x. key x = k) (evictList fs)))\<rparr>\<rparr>"
proof (cases "cache fs k")
  case None
  have "(cache fs)(k := None) = cache fs" using None by (auto simp: fun_eq_iff)
  then show ?thesis using None wf_filter_key[OF wf, of k] by (simp add: del_def)
next
  case (Some e)
  have e: "key e = k" using wf Some by (rule wf_cache_name)
  then have n: "ce_name (Value e) = k" by (simp add: key_def)
  have i: "(\<lambda>k'. if k' = k then None else ci_items (invalidator fs) k') = (ci_items (invalidator fs))(k := None)"
    by (auto simp: fun_eq_iff)
  show ?thesis using Some wf_filter_key[OF wf, of k] e n
    by (simp add: del_def removeElement_def Let_def list_Remove_def Del_def entry_size_def i)
qed

lemma sum_filter_split:
  fixes f :: "'a \<Rightarrow> 'b::comm_monoid_add"
  shows "sum_list (map f (filter (\<lambda>x. P x \<or> Q x) l)) =
         sum_list (map f (filter P l)) + sum_list (map f (filter (\<lambda>x. Q x \<and> \<not> P x) l))"
  by (induction l) (auto simp: ac_simps)

lemma length_filter_split:
  "length (filter (\<lambda>x. P x \<or> Q x) l) = length (filter P l) + length (filter (\<lambda>x. Q x \<and> \<not> P x) l)"
  by (induction l) auto

lemma fold_del_eq:
  assumes wf: "cache_wf fs"
  shows "fold (\<lambda>k fs'. snd (del k fs')) ks fs =
     fs\<lparr>evictList := filter (\<lambda>x. key x \<notin> set ks) (evictList fs),
        mc_size := mc_size fs - sum_list (map entry_size (filter (\<lambda>x. key x \<in> set ks) (evictList fs))),
        cache := (\<lambda>k. if k \<in> set ks then None else cache fs k),
        invalidator := (invalidator fs)
          \<lparr>ci_items := (\<lambda>k'. if k' \<in> key ` set (filter (\<lambda>x. key x \<in> set ks) (evictList fs)) then None
                            else ci_items (invalidator fs) k'),
           ci_removed := ci_removed (invalidator fs) \<union> key ` set (filter (\<lambda>x. key x \<in> set ks) (evictList fs)),
           ci_lastmod := ci_lastmod (invalidator fs) + of_nat (length (filter (\<lambda>x. key x \<in> set ks) (evictList fs)))\<rparr>\<rparr>"
  using wf
proof (induction ks arbitrary: fs)
  case Nil
  then show ?case by simp
next
  case (Cons k ks)
  let ?l = "evictList fs"
  let ?fs1 = "snd (del k fs)"
  have wf1: "cache_wf ?fs1" using Cons.prems by (rule wf_del)
  note d = del_eq[OF Cons.prems, of k]
  have l1: "evictList ?fs1 = filter (\<lambda>x. key x \<noteq> k) ?l" by (subst d) simp
  have s1: "mc_size ?fs1 = mc_size fs - sum_list (map entry_size (filter (\<lambda>x. key x = k) ?l))" by (subst d) simp
  have c1: "cache ?fs1 = (cache fs)(k := None)" by (subst d) simp
  have i1: "invalidator ?fs1 = (invalidator fs)
          \<lparr>ci_items := (\<lambda>k'. if k' \<in> key ` set (filter (\<lambda>x. key x = k) ?l) then None
                            else ci_items (invalidator fs) k'),
           ci_removed := ci_removed (invalidator fs) \<union> key ` set (filter (\<lambda>x. key x = k) ?l),
           ci_lastmod := ci_lastmod (invalidator fs) + of_nat (length (filter (\<lambda>x. key x = k) ?l))\<rparr>"
    by (subst d) simp
  define A where "A = filter (\<lambda>x. key x = k) ?l"
  define B where "B = filter (\<lambda>x. key x \<in> set ks) (filter (\<lambda>x. key x \<noteq> k) ?l)"
  define C where "C = filter (\<lambda>x. key x \<in> set (k # ks)) ?l"
  have f1: "filter (\<lambda>x. key x \<notin> set ks) (filter (\<lambda>x. key x \<noteq> k) ?l) = filter (\<lambda>x. key x \<notin> set (k # ks)) ?l"
    by (auto intro: filter_cong)
  have B: "B = filter (\<lambda>x. key x \<in> set ks \<and> \<not> key x = k) ?l"
    unfolding B_def by (auto intro: filter_cong)
  have C: "C = filter (\<lambda>x. key x = k \<or> key x \<in> set ks) ?l"
    unfolding C_def by (auto intro: filter_cong)
  have sum: "sum_list (map entry_size C) = sum_list (map entry_size A) + sum_list (map entry_size B)"
    unfolding A_def B C by (rule sum_filter_split)
  have len: "length C = length A + length B"
    unfolding A_def B C by (rule length_filter_split)
  have keys: "key ` set C = key ` set A \<union> key ` set B"
    unfolding A_def B C by auto
  have IH: "fold (\<lambda>k fs'. snd (del k fs')) (k # ks) fs =
     ?fs1\<lparr>evictList := filter (\<lambda>x. key x \<notin> set ks) (evictList ?fs1),
        mc_size := mc_size ?fs1 - sum_list (map entry_size (filter (\<lambda>x. key x \<in> set ks) (evictList ?fs1))),
        cache := (\<lambda>k. if k \<in> set ks then None else cache ?fs1 k),
        invalidator := (invalidator ?fs1)
          \<lparr>ci_items := (\<lambda>k'. if k' \<in> key ` set (filter (\<lambda>x. key x \<in> set ks) (evictList ?fs1)) then None
                            else ci_items (invalidator ?fs1) k'),
           ci_removed := ci_removed (invalidator ?fs1) \<union> key ` set (filter (\<lambda>x. key x \<in> set ks) (evictList ?fs1)),
           ci_lastmod := ci_lastmod (invalidator ?fs1) + of_nat (length (filter (\<lambda>x. key x \<in> set ks) (evictList ?fs1)))\<rparr>\<rparr>"
    (is "_ = ?X")
    using Cons.IH[OF wf1] by simp
  let ?Y = "fs\<lparr>evictList := filter (\<lambda>x. key x \<notin> set (k # ks)) ?l,
        mc_size := mc_size fs - sum_list (map entry_size C),
        cache := (\<lambda>k'. if k' \<in> set (k # ks) then None else cache fs k'),
        invalidator := (invalidator fs)
          \<lparr>ci_items := (\<lambda>k'. if k' \<in> key ` set C then None else ci_items (invalidator fs) k'),
           ci_removed := ci_removed (invalidator fs) \<union> key ` set C,
           ci_lastmod := ci_lastmod (invalidator fs) + of_nat (length C)\<rparr>\<rparr>"
  have xl: "evictList ?X = filter (\<lambda>x. key x \<notin> set ks) (evictList ?fs1)" by simp
  have xs: "mc_size ?X = mc_size ?fs1 - sum_list (map entry_size (filter (\<lambda>x. key x \<in> set ks) (evictList ?fs1)))" by simp
  have xc: "cache ?X = (\<lambda>k. if k \<in> set ks then None else cache ?fs1 k)" by simp
  have xi: "ci_items (invalidator ?X) =
      (\<lambda>k'. if k' \<in> key ` set (filter (\<lambda>x. key x \<in> set ks) (evictList ?fs1)) then None
            else ci_items (invalidator ?fs1) k')" by simp
  have xr: "ci_removed (invalidator ?X) =
      ci_removed (invalidator ?fs1) \<union> key ` set (filter (\<lambda>x. key x \<in> set ks) (evictList ?fs1))" by simp
  have xm: "ci_lastmod (invalidator ?X) =
      ci_lastmod (invalidator ?fs1) + of_nat (length (filter (\<lambda>x. key x \<in> set ks) (evictList ?fs1)))" by simp
  have xa: "ci_added (invalidator ?X) = ci_added (invalidator ?fs1)" by simp
  have xo: "cacheInvalidator.more (invalidator ?X) = cacheInvalidator.more (invalidator ?fs1)" by simp
  have yl: "evictList ?Y = filter (\<lambda>x. key x \<notin> set (k # ks)) ?l" by simp
  have ys: "mc_size ?Y = mc_size fs - sum_list (map entry_size C)" by simp
  have yc: "cache ?Y = (\<lambda>k'. if k' \<in> set (k # ks) then None else cache fs k')" by simp
  have yi: "ci_items (invalidator ?Y) = (\<lambda>k'. if k' \<in> key ` set C then None else ci_items (invalidator fs) k')" by simp
  have yr: "ci_removed (invalidator ?Y) = ci_removed (invalidator fs) \<union> key ` set C" by simp
  have ym: "ci_lastmod (invalidator ?Y) = ci_lastmod (invalidator fs) + of_nat (length C)" by simp
  have ya: "ci_added (invalidator ?Y) = ci_added (invalidator fs)" by simp
  have yo: "cacheInvalidator.more (invalidator ?Y) = cacheInvalidator.more (invalidator fs)" by simp
  have i1i: "ci_items (invalidator ?fs1) = (\<lambda>k'. if k' \<in> key ` set A then None else ci_items (invalidator fs) k')"
    unfolding i1 A_def by simp
  have i1r: "ci_removed (invalidator ?fs1) = ci_removed (invalidator fs) \<union> key ` set A"
    unfolding i1 A_def by simp
  have i1m: "ci_lastmod (invalidator ?fs1) = ci_lastmod (invalidator fs) + of_nat (length A)"
    unfolding i1 A_def by simp
  have i1a: "ci_added (invalidator ?fs1) = ci_added (invalidator fs)"
    unfolding i1 by simp
  have i1o: "cacheInvalidator.more (invalidator ?fs1) = cacheInvalidator.more (invalidator fs)"
    unfolding i1 by simp
  have Bl: "filter (\<lambda>x. key x \<in> set ks) (evictList ?fs1) = B" unfolding l1 B_def ..
  have inv: "invalidator ?X = invalidator ?Y"
  proof (rule cacheInvalidator.equality)
    show "ci_items (invalidator ?X) = ci_items (invalidator ?Y)"
      by (subst xi, subst yi, unfold Bl i1i keys) (auto simp: fun_eq_iff)
    show "ci_removed (invalidator ?X) = ci_removed (invalidator ?Y)"
      by (subst xr, subst yr) (simp only: Bl i1r keys Un_assoc)
    show "ci_lastmod (invalidator ?X) = ci_lastmod (invalidator ?Y)"
      by (subst xm, subst ym, unfold Bl i1m len) simp
    show "ci_added (invalidator ?X) = ci_added (invalidator ?Y)"
      by (subst xa, subst ya) (rule i1a)
    show "cacheInvalidator.more (invalidator ?X) = cacheInvalidator.more (invalidator ?Y)"
      by (subst xo, subst yo) (rule i1o)
  qed
  have "?X = ?Y"
  proof (rule memoryCacheFilesystem.equality)
    show "evictList ?X = evictList ?Y" by (subst xl, subst yl) (simp only: l1 f1)
    show "mc_size ?X = mc_size ?Y" by (subst xs, subst ys, unfold Bl s1 sum A_def[symmetric]) simp
    show "cache ?X = cache ?Y" by (subst xc, subst yc, unfold c1) (auto simp: fun_eq_iff)
    show "invalidator ?X = invalidator ?Y" by (rule inv)
    show "mc_next ?X = mc_next ?Y" by (subst d) simp
    show "maxSize ?X = maxSize ?Y" by (subst d) simp
    show "maxItems ?X = maxItems ?Y" by (subst d) simp
    show "mc_items ?X = mc_items ?Y" by (subst d) simp
    show "memoryCacheFilesystem.more ?X = memoryCacheFilesystem.more ?Y" by (subst d) simp
  qed
  then show ?case unfolding IH C_def .
qed

lemma invalid_names_set:
  assumes names: "distinct (map fst entries)"
    and r: "replies Do (requests_of fmt entries) n = (as, n')"
  shows "set (invalid_names fmt Do entries n) =
         {fst (entries ! i) | i. i < length entries \<and> (\<exists>s. as ! i = Inr s \<and> s \<noteq> 304 \<and> s \<noteq> 408 \<and> s \<noteq> 429)}"
proof -
  have ev: "evicts a \<longleftrightarrow> (\<exists>s. a = Inr s \<and> s \<noteq> 304 \<and> s \<noteq> 408 \<and> s \<noteq> 429)" for a
    by (cases a) (simp_all add: evicts_def)
  have iff: "fst (entries ! i) \<in> set (invalid_names fmt Do entries n) \<longleftrightarrow> evicts (as ! i)"
    if "i < length entries" for i
    using invalid_names_iff[OF names that, of fmt Do n] r by simp
  show ?thesis
  proof (rule set_eqI)
    fix x
    show "x \<in> set (invalid_names fmt Do entries n) \<longleftrightarrow>
          x \<in> {fst (entries ! i) | i. i < length entries \<and> (\<exists>s. as ! i = Inr s \<and> s \<noteq> 304 \<and> s \<noteq> 408 \<and> s \<noteq> 429)}"
    proof
      assume x: "x \<in> set (invalid_names fmt Do entries n)"
      then have "x \<in> fst ` set entries" using invalid_names_subset[of fmt Do entries n] by blast
      then obtain p where p: "p \<in> set entries" "x = fst p" by (rule imageE)
      then obtain i where i: "i < length entries" "entries ! i = p" by (auto simp: in_set_conv_nth)
      have "evicts (as ! i)" using iff[OF i(1)] x p(2) i(2) by simp
      then show "x \<in> {fst (entries ! i) | i. i < length entries \<and> (\<exists>s. as ! i = Inr s \<and> s \<noteq> 304 \<and> s \<noteq> 408 \<and> s \<noteq> 429)}"
        using i p(2) ev by blast
    next
      assume "x \<in> {fst (entries ! i) | i. i < length entries \<and> (\<exists>s. as ! i = Inr s \<and> s \<noteq> 304 \<and> s \<noteq> 408 \<and> s \<noteq> 429)}"
      then obtain i where i: "i < length entries" "x = fst (entries ! i)" "evicts (as ! i)"
        using ev by blast
      then show "x \<in> set (invalid_names fmt Do entries n)" using iff[OF i(1)] by simp
    qed
  qed
qed

lemma sweep_state:
  assumes wf: "cache_wf fs" and names: "distinct (map fst entries)"
    and run: "sweep fmt Do entries (fs, n) = (fs', n')"
    and answers: "replies Do (map (\<lambda>(name, fi). head_request fmt fi) entries) n = (as, n'')"
    and E: "E = {fst (entries ! i) | i. i < length entries \<and> (\<exists>s. as ! i = Inr s \<and> s \<noteq> 304 \<and> s \<noteq> 408 \<and> s \<noteq> 429)}"
    and sel: "l = evictList fs" "sz = mc_size fs" "c = cache fs" "iv = invalidator fs"
  shows "cache_wf fs'"
    and "fs' = fs\<lparr>evictList := filter (\<lambda>x. key x \<notin> E) l,
        mc_size := sz - sum_list (map entry_size (filter (\<lambda>x. key x \<in> E) l)),
        cache := (\<lambda>k. if k \<in> E then None else c k),
        invalidator := iv
          \<lparr>ci_items := (\<lambda>k'. if k' \<in> key ` set (filter (\<lambda>x. key x \<in> E) l) then None else ci_items iv k'),
           ci_removed := ci_removed iv \<union> key ` set (filter (\<lambda>x. key x \<in> E) l),
           ci_lastmod := ci_lastmod iv + of_nat (length (filter (\<lambda>x. key x \<in> E) l))\<rparr>\<rparr>"
proof -
  have r: "replies Do (requests_of fmt entries) n = (as, n'')" using answers by (simp add: requests_of_def)
  have fs': "fs' = fold (\<lambda>k fs'. snd (del k fs')) (invalid_names fmt Do entries n) fs"
    using run r by (simp add: sweep_eq)
  have s: "set (invalid_names fmt Do entries n) = E"
    unfolding E using names r by (rule invalid_names_set)
  show "cache_wf fs'" unfolding fs' using fold_del[OF wf] by (rule conjunct1)
  show "fs' = fs\<lparr>evictList := filter (\<lambda>x. key x \<notin> E) l,
        mc_size := sz - sum_list (map entry_size (filter (\<lambda>x. key x \<in> E) l)),
        cache := (\<lambda>k. if k \<in> E then None else c k),
        invalidator := iv
          \<lparr>ci_items := (\<lambda>k'. if k' \<in> key ` set (filter (\<lambda>x. key x \<in> E) l) then None else ci_items iv k'),
           ci_removed := ci_removed iv \<union> key ` set (filter (\<lambda>x. key x \<in> E) l),
           ci_lastmod := ci_lastmod iv + of_nat (length (filter (\<lambda>x. key x \<in> E) l))\<rparr>\<rparr>"
    unfolding fs' s[symmetric] sel using wf by (rule fold_del_eq)
qed

lemma range_items_props:
  assumes "distinct order"
  shows "distinct (map fst (range_items items order))"
    and "set (range_items items order) = {(k, fi). k \<in> set order \<and> items k = Some fi}"
proof -
  have m: "map fst (range_items items order) = filter (\<lambda>k. items k \<noteq> None) order" for order
    by (induction order) (auto simp: range_items_def map_filter_simps split: option.splits)
  show "distinct (map fst (range_items items order))" using assms by (simp add: m)
  show "set (range_items items order) = {(k, fi). k \<in> set order \<and> items k = Some fi}"
    by (induction order) (auto simp: range_items_def map_filter_simps split: option.splits)
qed

text \<open>
  Claim C3. In a pass of the sweep, run without interleaved cache operations, every entry
  of the local snapshot is checked once, by a \<open>HEAD\<close> request to the snapshot's URL with
  \<open>If-Modified-Since\<close> set to its formatted mtime and \<open>If-None-Match\<close> set to its etag, and
  nothing else is sent. On status 304 the cache entry of the key is left as it was; on
  408 or 429, and on an error of the client, likewise; on every other status, 200
  included, the eviction callback leaves no entry under the key. The snapshot after the
  pass is the folded one: the sweep does not change it. With \<open>E\<close> the keys whose answer is
  such a status and \<open>removed\<close> the elements of the list under these keys, the cache after the
  pass is well formed and is the cache before it with exactly these elements taken off the
  list, their keys off the map, their sizes subtracted from \<open>size\<close>, and one \<open>Del\<close> of the
  invalidator for each (the key off \<open>ci.items\<close> and into \<open>ci.removed\<close>, \<open>lastmod\<close>
  incremented); nothing else changes.
\<close>

theorem sweep_pass_by_status:
  assumes wf: "cache_wf fs"
    and order: "distinct order" "set order = dom (r_items loc1)"
    and pass: "tick fmt Do order (loc, fs, n) = (loc1, fs1, n1)"
    and entries: "entries = range_items (r_items loc1) order"
    and answers: "replies Do (map (\<lambda>(name, fi). head_request fmt fi) entries) n = (as, n2)"
    and evicted: "E = {fst (entries ! i) | i. i < length entries \<and>
                        (\<exists>s. as ! i = Inr s \<and> s \<noteq> 304 \<and> s \<noteq> 408 \<and> s \<noteq> 429)}"
    and removed: "removed = filter (\<lambda>e. key e \<in> E) (evictList fs)"
    and folded: "ci = snd (fold_deltas loc (invalidator fs))"
  shows "loc1 = fst (fold_deltas loc (invalidator fs)) \<and> n1 = n2 \<and> length as = length entries \<and>
         (\<forall>k fi. r_items loc1 k = Some fi \<longrightarrow> (k, fi) \<in> set entries) \<and>
         (\<forall>i < length entries.
            r_items loc1 (fst (entries ! i)) = Some (snd (entries ! i)) \<and>
            head_request fmt (snd (entries ! i)) =
              \<lparr>Method = ''HEAD'', URL = basename (snd (entries ! i)),
               Header = [(''If-Modified-Since'', fmt (modtime (snd (entries ! i)))),
                         (''If-None-Match'', etag (snd (entries ! i)))]\<rparr> \<and>
            (as ! i = Inr 304 \<longrightarrow> cache fs1 (fst (entries ! i)) = cache fs (fst (entries ! i))) \<and>
            (as ! i = Inr 408 \<or> as ! i = Inr 429 \<longrightarrow> cache fs1 (fst (entries ! i)) = cache fs (fst (entries ! i))) \<and>
            (\<forall>err. as ! i = Inl err \<longrightarrow> cache fs1 (fst (entries ! i)) = cache fs (fst (entries ! i))) \<and>
            (\<forall>s. as ! i = Inr s \<and> s \<noteq> 304 \<and> s \<noteq> 408 \<and> s \<noteq> 429 \<longrightarrow> cache fs1 (fst (entries ! i)) = None)) \<and>
         cache_wf fs1 \<and>
         fs1 = fs\<lparr>evictList := filter (\<lambda>e. key e \<notin> E) (evictList fs),
                  mc_size := mc_size fs - sum_list (map entry_size removed),
                  cache := (\<lambda>k. if k \<in> E then None else cache fs k),
                  invalidator := ci\<lparr>ci_items := (\<lambda>k. if k \<in> key ` set removed then None else ci_items ci k),
                                    ci_removed := ci_removed ci \<union> key ` set removed,
                                    ci_lastmod := ci_lastmod ci + of_nat (length removed)\<rparr>\<rparr>"
proof -
  obtain l c where f: "fold_deltas loc (invalidator fs) = (l, c)" by (cases "fold_deltas loc (invalidator fs)")
  let ?fs0 = "fs\<lparr>invalidator := c\<rparr>"
  have loc1: "loc1 = l" and sw: "sweep fmt Do (range_items (r_items l) order) (?fs0, n) = (fs1, n1)"
    using pass by (auto simp: tick_def f split: prod.splits)
  have ci: "ci = c" using folded f by simp
  have wf0: "cache_wf ?fs0" using wf by (simp add: cache_wf_def)
  have sw': "sweep fmt Do entries (?fs0, n) = (fs1, n1)" using sw by (simp add: entries loc1)
  have d: "distinct (map fst entries)" unfolding entries using order(1) by (rule range_items_props)
  have mem: "set entries = {(k, fi). k \<in> set order \<and> r_items loc1 k = Some fi}"
    unfolding entries using order(1) by (rule range_items_props)
  note st = sweep_by_status[OF wf0 d sw' answers]
  have a: "(k, fi) \<in> set entries" if "r_items loc1 k = Some fi" for k fi
    using that order(2) by (auto simp: mem)
  have b: "r_items loc1 (fst (entries ! i)) = Some (snd (entries ! i))" if "i < length entries" for i
  proof -
    have "entries ! i \<in> set entries" using that by simp
    then show ?thesis by (auto simp: mem)
  qed
  have h: "head_request fmt fi = \<lparr>Method = ''HEAD'', URL = basename fi,
               Header = [(''If-Modified-Since'', fmt (modtime fi)), (''If-None-Match'', etag fi)]\<rparr>" for fi
    by (simp add: head_request_def Name_def)
  have old: "loc1 = fst (fold_deltas loc (invalidator fs)) \<and> n1 = n2 \<and> length as = length entries \<and>
         (\<forall>k fi. r_items loc1 k = Some fi \<longrightarrow> (k, fi) \<in> set entries) \<and>
         (\<forall>i < length entries.
            r_items loc1 (fst (entries ! i)) = Some (snd (entries ! i)) \<and>
            head_request fmt (snd (entries ! i)) =
              \<lparr>Method = ''HEAD'', URL = basename (snd (entries ! i)),
               Header = [(''If-Modified-Since'', fmt (modtime (snd (entries ! i)))),
                         (''If-None-Match'', etag (snd (entries ! i)))]\<rparr> \<and>
            (as ! i = Inr 304 \<longrightarrow> cache fs1 (fst (entries ! i)) = cache fs (fst (entries ! i))) \<and>
            (as ! i = Inr 408 \<or> as ! i = Inr 429 \<longrightarrow> cache fs1 (fst (entries ! i)) = cache fs (fst (entries ! i))) \<and>
            (\<forall>err. as ! i = Inl err \<longrightarrow> cache fs1 (fst (entries ! i)) = cache fs (fst (entries ! i))) \<and>
            (\<forall>s. as ! i = Inr s \<and> s \<noteq> 304 \<and> s \<noteq> 408 \<and> s \<noteq> 429 \<longrightarrow> cache fs1 (fst (entries ! i)) = None))"
    using st a b h by (simp add: loc1 f)
  have sel: "evictList fs = evictList ?fs0" "mc_size fs = mc_size ?fs0" "cache fs = cache ?fs0"
    "ci = invalidator ?fs0" by (simp_all add: ci)
  have wf1: "cache_wf fs1" using wf0 d sw' answers evicted sel by (rule sweep_state(1))
  have "fs1 = ?fs0\<lparr>evictList := filter (\<lambda>e. key e \<notin> E) (evictList fs),
                  mc_size := mc_size fs - sum_list (map entry_size (filter (\<lambda>e. key e \<in> E) (evictList fs))),
                  cache := (\<lambda>k. if k \<in> E then None else cache fs k),
                  invalidator := ci\<lparr>ci_items := (\<lambda>k. if k \<in> key ` set (filter (\<lambda>e. key e \<in> E) (evictList fs)) then None else ci_items ci k),
                                    ci_removed := ci_removed ci \<union> key ` set (filter (\<lambda>e. key e \<in> E) (evictList fs)),
                                    ci_lastmod := ci_lastmod ci + of_nat (length (filter (\<lambda>e. key e \<in> E) (evictList fs)))\<rparr>\<rparr>"
    using wf0 d sw' answers evicted sel by (rule sweep_state(2))
  then have eq: "fs1 = fs\<lparr>evictList := filter (\<lambda>e. key e \<notin> E) (evictList fs),
                  mc_size := mc_size fs - sum_list (map entry_size removed),
                  cache := (\<lambda>k. if k \<in> E then None else cache fs k),
                  invalidator := ci\<lparr>ci_items := (\<lambda>k. if k \<in> key ` set removed then None else ci_items ci k),
                                    ci_removed := ci_removed ci \<union> key ` set removed,
                                    ci_lastmod := ci_lastmod ci + of_nat (length removed)\<rparr>\<rparr>"
    unfolding removed by simp
  show ?thesis using old wf1 eq by (intro conjI) (elim conjE, assumption)+
qed

lemma two_cached_invalidator:
  "invalidator two_cached =
     \<lparr>ci_items = [''file1'' \<mapsto> f_fi (newFile ''file1''), ''file2'' \<mapsto> f_fi (newFile ''file2'')],
      ci_added = {''file2'', ''file1''}, ci_removed = {}, ci_lastmod = 2\<rparr>"
  by (simp add: two_cached_def add_def add_delete_existing_def add_push_def add_evict_def
      add_register_def NewCache_def Let_def Add_def newCacheInvalidator_def)

lemma two_cached_cache:
  "cache two_cached ''file1'' \<noteq> None \<and> cache two_cached ''file2'' \<noteq> None"
  by (simp add: two_cached_def add_def add_delete_existing_def add_push_def add_evict_def
      add_register_def NewCache_def Let_def)

lemma two_cached_fold:
  "fold_deltas run_init (invalidator two_cached) =
     (\<lparr>r_items = copy_added {''file2'', ''file1''}
                   [''file1'' \<mapsto> f_fi (newFile ''file1''), ''file2'' \<mapsto> f_fi (newFile ''file2'')]
                   (delete_removed {} Map.empty),
        r_lastmod = 2\<rparr>,
      invalidator two_cached\<lparr>ci_removed := {}, ci_added := {}\<rparr>)"
  by (simp add: two_cached_invalidator fold_deltas_def run_init_def)

lemma two_cached_list:
  "evictList two_cached =
     [Element 1 \<lparr>ce_file = newFile ''file2'', ce_name = ''file2''\<rparr>,
      Element 0 \<lparr>ce_file = newFile ''file1'', ce_name = ''file1''\<rparr>]"
  by (simp add: two_cached_def add_def add_delete_existing_def add_push_def add_evict_def
      add_register_def NewCache_def Let_def)

theorem sweep_pass_witness:
  "cache (fst (snd (tick gmt busy_origin [''file1'', ''file2''] (run_init, two_cached, [])))) ''file1'' = None \<and>
   cache (fst (snd (tick gmt busy_origin [''file1'', ''file2''] (run_init, two_cached, [])))) ''file2'' =
     cache two_cached ''file2'' \<and>
   cache two_cached ''file1'' \<noteq> None \<and> cache two_cached ''file2'' \<noteq> None \<and>
   snd (snd (tick gmt busy_origin [''file1'', ''file2''] (run_init, two_cached, []))) =
     [head_request gmt (f_fi (newFile ''file1'')), head_request gmt (f_fi (newFile ''file2''))] \<and>
   evictList two_cached =
     [Element 1 \<lparr>ce_file = newFile ''file2'', ce_name = ''file2''\<rparr>,
      Element 0 \<lparr>ce_file = newFile ''file1'', ce_name = ''file1''\<rparr>] \<and>
   evictList (fst (snd (tick gmt busy_origin [''file1'', ''file2''] (run_init, two_cached, [])))) =
     [Element 1 \<lparr>ce_file = newFile ''file2'', ce_name = ''file2''\<rparr>] \<and>
   mc_size (fst (snd (tick gmt busy_origin [''file1'', ''file2''] (run_init, two_cached, [])))) =
     mc_size two_cached - Size (f_fi (newFile ''file1'')) \<and>
   ci_removed (invalidator (fst (snd (tick gmt busy_origin [''file1'', ''file2''] (run_init, two_cached, []))))) =
     {''file1''} \<and>
   ci_items (invalidator (fst (snd (tick gmt busy_origin [''file1'', ''file2''] (run_init, two_cached, []))))) =
     [''file2'' \<mapsto> f_fi (newFile ''file2'')] \<and>
   ci_lastmod (invalidator (fst (snd (tick gmt busy_origin [''file1'', ''file2''] (run_init, two_cached, []))))) = 3"
proof -
  let ?t = "tick gmt busy_origin [''file1'', ''file2''] (run_init, two_cached, [])"
  let ?fi1 = "f_fi (newFile ''file1'')" and ?fi2 = "f_fi (newFile ''file2'')"
  let ?entries = "[(''file1'', ?fi1), (''file2'', ?fi2)]"
  let ?as = "[Inr 200, Inr 429] :: (error + int) list"
  let ?E = "{fst (?entries ! i) | i. i < length ?entries \<and>
               (\<exists>s. ?as ! i = Inr s \<and> s \<noteq> 304 \<and> s \<noteq> 408 \<and> s \<noteq> 429)}"
  let ?removed = "filter (\<lambda>e. key e \<in> ?E) (evictList two_cached)"
  let ?ci = "snd (fold_deltas run_init (invalidator two_cached))"
  have wf: "cache_wf two_cached"
    unfolding two_cached_def by (intro wf_add cache_wf_NewCache)
  have loc1: "fst ?t = fst (fold_deltas run_init (invalidator two_cached))"
    by (simp add: tick_def split: prod.splits)
  have items: "r_items (fst ?t) = [''file1'' \<mapsto> ?fi1, ''file2'' \<mapsto> ?fi2]"
    by (auto simp: loc1 two_cached_fold copy_added_def delete_removed_def index_items_def fun_eq_iff)
  have dom: "set [''file1'', ''file2''] = dom (r_items (fst ?t))"
    by (simp add: items) blast
  have entries: "?entries = range_items (r_items (fst ?t)) [''file1'', ''file2'']"
    by (simp add: items range_items_def map_filter_simps)
  have answers: "replies busy_origin (map (\<lambda>(name, fi). head_request gmt fi) ?entries) [] =
      (?as, [head_request gmt ?fi1, head_request gmt ?fi2])"
    by (simp add: busy_origin_def head_request_def Name_def newFile_def Let_def)
  have pass: "?t = (fst ?t, fst (snd ?t), snd (snd ?t))" by simp
  have dist: "distinct [''file1'', ''file2'']" by simp
  have E: "?E = {''file1''}"
  proof (rule set_eqI)
    fix x
    show "x \<in> ?E \<longleftrightarrow> x \<in> {''file1''}"
    proof
      assume "x \<in> ?E"
      then show "x \<in> {''file1''}" by (auto simp: less_Suc_eq)
    next
      assume "x \<in> {''file1''}"
      then have "x = fst (?entries ! 0) \<and> 0 < length ?entries \<and>
                 (\<exists>s. ?as ! 0 = Inr s \<and> s \<noteq> 304 \<and> s \<noteq> 408 \<and> s \<noteq> 429)" by simp
      then show "x \<in> ?E" by blast
    qed
  qed
  have removed: "[Element 0 \<lparr>ce_file = newFile ''file1'', ce_name = ''file1''\<rparr>] =
                 filter (\<lambda>e. key e \<in> {''file1''}) (evictList two_cached)"
    by (simp add: two_cached_list key_def)
  have ci: "invalidator two_cached\<lparr>ci_removed := {}, ci_added := {}\<rparr> =
            snd (fold_deltas run_init (invalidator two_cached))"
    by (simp add: two_cached_fold)
  note th = sweep_pass_by_status[OF wf dist dom pass entries answers E[symmetric] removed ci]
  have n: "snd (snd ?t) = [head_request gmt ?fi1, head_request gmt ?fi2]"
    using th by (elim conjE)
  note all = th[THEN conjunct2, THEN conjunct2, THEN conjunct2, THEN conjunct2, THEN conjunct1, THEN spec]
  note state = th[THEN conjunct2, THEN conjunct2, THEN conjunct2, THEN conjunct2, THEN conjunct2, THEN conjunct2]
  have c1: "cache (fst (snd ?t)) ''file1'' = None"
    using all[of 0] by simp
  have c2: "cache (fst (snd ?t)) ''file2'' = cache two_cached ''file2''"
    using all[of 1] by simp
  have l: "evictList (fst (snd ?t)) = [Element 1 \<lparr>ce_file = newFile ''file2'', ce_name = ''file2''\<rparr>]"
    by (subst state) (simp add: two_cached_list key_def)
  have s: "mc_size (fst (snd ?t)) = mc_size two_cached - Size (f_fi (newFile ''file1''))"
    by (subst state) (simp add: entry_size_def)
  have r: "ci_removed (invalidator (fst (snd ?t))) = {''file1''}"
    by (subst state) (simp add: key_def)
  have i: "ci_items (invalidator (fst (snd ?t))) = [''file2'' \<mapsto> f_fi (newFile ''file2'')]"
    by (subst state) (auto simp: key_def two_cached_invalidator fun_eq_iff)
  have m: "ci_lastmod (invalidator (fst (snd ?t))) = 3"
    by (subst state) (simp add: two_cached_invalidator)
  show ?thesis using c1 c2 n two_cached_cache two_cached_list l s r i m by simp
qed

text \<open>
  Claim C4. After the fold the local snapshot should hold exactly the keys whose last
  completed operation is an \<open>Add\<close>, and the source says so in its comment (items is now
  up to date with ci.items). The code does not do this for a key that was added and then deleted since
  the last fold: the key is in \<open>removed\<close> and in \<open>added\<close>, the second loop copies
  \<open>ci.items[k]\<close> of the absent key, and the snapshot keeps the key with the zero
  \<open>fileInfo\<close>. Here on the cache above, and on \<open>Add\<close> then \<open>Del\<close> of one entry.
\<close>

theorem fold_keeps_key_added_then_deleted:
  "cache evicted_early ''file1'' = None \<and>
   ci_items (invalidator evicted_early) ''file1'' = None \<and>
   r_items (fst (fold_deltas run_init (invalidator evicted_early))) ''file1'' = Some zero_fileInfo \<and>
   r_items (fst (fold_deltas run_init (Del \<lparr>ce_file = newFile ''k'', ce_name = ''k''\<rparr>
                                         (Add \<lparr>ce_file = newFile ''k'', ce_name = ''k''\<rparr> newCacheInvalidator)))) ''k''
     = Some zero_fileInfo"
  by (simp add: evicted_early_def add_def add_delete_existing_def add_push_def add_evict_def
      add_register_def NewCache_def Let_def Add_def Del_def newCacheInvalidator_def
      removeOldest_def removeElement_def Back_def list_Remove_def
      fold_deltas_def run_init_def copy_added_def delete_removed_def index_items_def)

section \<open>What the origin client and the serve layer guarantee\<close>

lemma getContentType_rewinds:
  assumes "rd_i rd = 0"
  shows "\<exists>ctype rd1. getContentType l res rd name = (Inr ctype, rd1) \<and> rd_i rd1 = 0 \<and> rd_s rd1 = rd_s rd"
proof (cases "res_Header res ''Content-Type''")
  case (Some ctypes)
  then show ?thesis using assms by (cases ctypes) (simp_all add: getContentType_def)
next
  case None
  show ?thesis
  proof (cases "TypeByExtension l (Ext name) = []")
    case False
    then show ?thesis using None assms by (simp add: getContentType_def Let_def)
  next
    case True
    obtain buf rd1 where rf: "ReadFull 512 rd = (buf, rd1)" by (cases "ReadFull 512 rd")
    have s1: "rd_s rd1 = rd_s rd"
      using rf by (auto simp: ReadFull_def Read_def Let_def split: if_splits)
    have "Seek 0 0 rd1 = (Inr 0, rd1\<lparr>rd_i := 0\<rparr>)" by (simp add: Seek_def)
    then show ?thesis using None True rf s1 by (simp add: getContentType_def Let_def)
  qed
qed

lemma getETag_at_start:
  assumes "rd_i rd = 0"
  shows "fst (getETag res rd) =
           (let e = Trim (Header_Get (res_Header res) ''Etag'') [CHR 0x22]
            in if e = [] then EncodeToString (md5 (rd_s rd)) else e)"
proof -
  obtain b rd1 where w: "WriteTo rd = (b, rd1)" by (cases "WriteTo rd")
  have "fst (WriteTo rd) = rd_s rd" using assms by (simp add: WriteTo_def Let_def)
  then have "b = rd_s rd" using w by simp
  then show ?thesis using w by (simp add: getETag_def Let_def)
qed

lemma md5_length: "length (md5 b) = 16"
  by (simp add: md5_def Let_def le_bytes_def split: prod.splits)

lemma EncodeToString_nonempty: "bs \<noteq> [] \<Longrightarrow> EncodeToString bs \<noteq> []"
  by (cases bs) (simp_all add: EncodeToString_def)

lemma getETag_nonempty: "fst (getETag res rd) \<noteq> []"
proof -
  have "md5 b \<noteq> []" for b using md5_length[of b] by auto
  then show ?thesis
    by (auto simp: getETag_def Let_def EncodeToString_nonempty split: prod.splits)
qed

lemma remote_Open_ok:
  assumes get: "Get (origin @ name) n = (Inr res, n1)"
    and ok: "StatusCode res = 200" "ContentLength res > 0"
    and body: "Body res = Inr buf"
  shows "\<exists>f. remoteFileSystem_Open l Get Now origin name n = (Inr f, n1) \<and>
           etag (f_fi f) =
             (let e = Trim (Header_Get (res_Header res) ''Etag'') [CHR 0x22]
              in if e = [] then EncodeToString (md5 buf) else e) \<and>
           etag (f_fi f) \<noteq> [] \<and> f_buf f = Some buf \<and> basename (f_fi f) = origin @ name"
proof -
  obtain ctype rd1 where ct: "getContentType l res (NewReader buf) name = (Inr ctype, rd1)"
    and i1: "rd_i rd1 = 0" and s1: "rd_s rd1 = buf"
    using getContentType_rewinds[of "NewReader buf" l res name] by (auto simp: NewReader_def)
  obtain e rd2 where ge: "getETag res rd1 = (e, rd2)" by (cases "getETag res rd1")
  have e: "e = (let e = Trim (Header_Get (res_Header res) ''Etag'') [CHR 0x22]
              in if e = [] then EncodeToString (md5 buf) else e)"
    using getETag_at_start[OF i1, of res] ge s1 by (simp add: Let_def)
  have ne: "e \<noteq> []" using getETag_nonempty[of res rd1] ge by simp
  show ?thesis
    using get ok body ct ge e ne by (simp add: remoteFileSystem_Open_def Let_def)
qed

lemma serveFile_etag:
  assumes o: "open name st = (Return (Inr r), st1)" and w: "w ''ETag'' = None" and ne: "etag (f_fi r) \<noteq> []"
  shows "\<exists>w2. serveFile open w name st = (Return (ServeContent w2 (basename (f_fi r)) (modtime (f_fi r)) r), st1) \<and>
              w2 ''Etag'' = Some [etag (f_fi r)]"
proof -
  have c1: "CanonicalMIMEHeaderKey ''ETag'' = ''Etag''" by code_simp
  have c2: "CanonicalMIMEHeaderKey ''Content-Type'' = ''Content-Type''" by code_simp
  show ?thesis
    using o w ne by (simp add: serveFile_def Let_def Header_Set_def c1 c2 Name_def split: option.splits)
qed

lemma md5_abc: "EncodeToString (md5 (bytes_of ''abc'')) = ''900150983cd24fb0d6963f7d28e17f72''"
  by code_simp

text \<open>
  What the origin client resolves. For a response with status 200, a positive declared
  length and a body that was read, \<open>Open\<close> of the origin client returns a file whose etag is
  the first value of the header \<open>Etag\<close> without the double quotes at its ends, or, when that
  is empty, the lower-case hexadecimal MD5 of the whole body (the reader is at offset 0 when
  the digest is taken). When the map of response headers has no key \<open>ETag\<close>, \<open>serveFile\<close>
  sets the header to this etag before it hands the file to \<open>http.ServeContent\<close>. For the
  body \<open>abc\<close> the digest is \<open>900150983cd24fb0d6963f7d28e17f72\<close>.
\<close>

lemma etag_header_or_md5:
  assumes get: "Get (origin @ name) n = (Inr res, n1)"
    and ok: "StatusCode res = 200" "ContentLength res > 0"
    and body: "Body res = Inr buf"
  shows "(\<exists>f. remoteFileSystem_Open l Get Now origin name n = (Inr f, n1) \<and>
           etag (f_fi f) =
             (let e = Trim (Header_Get (res_Header res) ''Etag'') [CHR 0x22]
              in if e = [] then EncodeToString (md5 buf) else e) \<and>
           (\<forall>fs w. cache fs name = None \<and> w ''ETag'' = None \<longrightarrow>
              (\<exists>w2 r st1.
                 serveFile (Open (remoteFileSystem_Open l Get Now origin)) w name (fs, n) =
                   (Return (ServeContent w2 (origin @ name) (modtime (f_fi f)) r), st1) \<and>
                 f_fi r = f_fi f \<and> w2 ''Etag'' = Some [etag (f_fi f)]))) \<and>
           (\<forall>(open' :: string \<Rightarrow> 's \<Rightarrow> (error + File) go \<times> 's) st r st1 w.
              open' name st = (Return (Inr r), st1) \<and> w ''ETag'' = None \<and> etag (f_fi r) \<noteq> [] \<longrightarrow>
              (\<exists>w2. serveFile open' w name st =
                      (Return (ServeContent w2 (basename (f_fi r)) (modtime (f_fi r)) r), st1) \<and>
                    w2 ''Etag'' = Some [etag (f_fi r)])) \<and>
           EncodeToString (md5 (bytes_of ''abc'')) = ''900150983cd24fb0d6963f7d28e17f72''"
proof -
  let ?R = "remoteFileSystem_Open l Get Now origin"
  obtain f where f: "?R name n = (Inr f, n1)"
    and e: "etag (f_fi f) =
             (let e = Trim (Header_Get (res_Header res) ''Etag'') [CHR 0x22]
              in if e = [] then EncodeToString (md5 buf) else e)"
    and ne: "etag (f_fi f) \<noteq> []" and b: "f_buf f = Some buf" and bn: "basename (f_fi f) = origin @ name"
    using remote_Open_ok[where Get = Get and origin = origin and name = name and l = l and Now = Now,
        OF get ok body] by blast
  have serve: "\<exists>w2 r st1.
                 serveFile (Open ?R) w name (fs, n) =
                   (Return (ServeContent w2 (origin @ name) (modtime (f_fi f)) r), st1) \<and>
                 f_fi r = f_fi f \<and> w2 ''Etag'' = Some [etag (f_fi f)]"
    if miss: "cache fs name = None" and w: "w ''ETag'' = None" for fs :: memoryCacheFilesystem and w :: header
  proof -
    let ?r = "\<lparr>ReadSeeker = NewReader buf, f_fi = f_fi f, f_buf = None\<rparr>"
    have rc: "readClone f = Return ?r" using b by (simp add: readClone_def)
    have o: "Open ?R name (fs, n) = (Return (Inr ?r), (snd (add name f fs), n1))"
      using Open_miss_add[where origin = ?R and name = name and fs = fs and w = n and f = f and ?w1.0 = n1,
          OF miss f] rc by (simp add: fst_add)
    have ne': "etag (f_fi ?r) \<noteq> []" using ne by simp
    show ?thesis
      using serveFile_etag[where ?open = "Open ?R" and name = name and st = "(fs, n)" and r = ?r and w = w,
          OF o w ne'] bn by auto
  qed
  have any: "\<exists>w2. serveFile open' w name st =
                      (Return (ServeContent w2 (basename (f_fi r)) (modtime (f_fi r)) r), st1) \<and>
                    w2 ''Etag'' = Some [etag (f_fi r)]"
    if "open' name st = (Return (Inr r), st1) \<and> w ''ETag'' = None \<and> etag (f_fi r) \<noteq> []"
    for open' :: "string \<Rightarrow> 's \<Rightarrow> (error + File) go \<times> 's" and st r st1 and w :: header
    using that serveFile_etag[where ?open = open' and name = name and st = st and r = r and w = w] by blast
  have first: "\<exists>f. ?R name n = (Inr f, n1) \<and>
           etag (f_fi f) =
             (let e = Trim (Header_Get (res_Header res) ''Etag'') [CHR 0x22]
              in if e = [] then EncodeToString (md5 buf) else e) \<and>
           (\<forall>fs w. cache fs name = None \<and> w ''ETag'' = None \<longrightarrow>
              (\<exists>w2 r st1.
                 serveFile (Open ?R) w name (fs, n) =
                   (Return (ServeContent w2 (origin @ name) (modtime (f_fi f)) r), st1) \<and>
                 f_fi r = f_fi f \<and> w2 ''Etag'' = Some [etag (f_fi f)]))"
    using f e serve by blast
  show ?thesis using first any md5_abc by (intro conjI allI impI)
qed

lemma etag_md5_of_abc:
  "\<exists>w2 t r st1.
     serveFile (Open (remoteFileSystem_Open plain_lib abc_origin (\<lambda>c. 0) ''http://origin'')) Map.empty ''/abc''
         (NewCache 50 536870912, 0) =
       (Return (ServeContent w2 ''http://origin/abc'' t r), st1) \<and>
     w2 ''Etag'' = Some [''900150983cd24fb0d6963f7d28e17f72'']"
proof -
  let ?res = "\<lparr>StatusCode = 200, ContentLength = 3, res_Header = Map.empty, Body = Inr (bytes_of ''abc'')\<rparr>"
  have get: "abc_origin (''http://origin'' @ ''/abc'') 0 = (Inr ?res, Suc 0)" by (simp add: abc_origin_def)
  have ok: "StatusCode ?res = 200" "ContentLength ?res > 0" and body: "Body ?res = Inr (bytes_of ''abc'')"
    by simp_all
  note th = etag_header_or_md5[where Get = abc_origin and origin = "''http://origin''"
        and name = "''/abc''" and l = plain_lib and Now = "\<lambda>c. 0", OF get ok body]
  from th[THEN conjunct1] obtain f where all: "remoteFileSystem_Open plain_lib abc_origin (\<lambda>c. 0) ''http://origin'' ''/abc'' 0 = (Inr f, Suc 0) \<and>
           etag (f_fi f) =
             (let e = Trim (Header_Get (res_Header ?res) ''Etag'') [CHR 0x22]
              in if e = [] then EncodeToString (md5 (bytes_of ''abc'')) else e) \<and>
           (\<forall>fs w. cache fs ''/abc'' = None \<and> w ''ETag'' = None \<longrightarrow>
              (\<exists>w2 r st1.
                 serveFile (Open (remoteFileSystem_Open plain_lib abc_origin (\<lambda>c. 0) ''http://origin'')) w ''/abc'' (fs, 0) =
                   (Return (ServeContent w2 (''http://origin'' @ ''/abc'') (modtime (f_fi f)) r), st1) \<and>
                 f_fi r = f_fi f \<and> w2 ''Etag'' = Some [etag (f_fi f)]))" ..
  note e = all[THEN conjunct2, THEN conjunct1]
  note s = all[THEN conjunct2, THEN conjunct2]
  note m = th[THEN conjunct2, THEN conjunct2]
  have "etag (f_fi f) = ''900150983cd24fb0d6963f7d28e17f72''"
    using e m by (simp add: Header_Get_def Trim_def Let_def)
  moreover have "cache (NewCache 50 536870912) ''/abc'' = None \<and> (Map.empty :: header) ''ETag'' = None"
    by (simp add: NewCache_def)
  ultimately show ?thesis using s[rule_format, of "NewCache 50 536870912" Map.empty] by auto
qed

lemma canonical_keys:
  "CanonicalMIMEHeaderKey ''ETag'' = ''Etag''"
  "CanonicalMIMEHeaderKey ''Etag'' = ''Etag''"
  "CanonicalMIMEHeaderKey ''Content-Type'' = ''Content-Type''"
  by code_simp+

lemma tagged_fetch:
  "remoteFileSystem_Open plain_lib tagged_origin (\<lambda>c. 0) ''http://origin'' ''/abc'' 0 =
     (Inr \<lparr>ReadSeeker = NewReader (bytes_of ''abc''),
           f_fi = \<lparr>basename = ''http://origin/abc'', modtime = 0, fi_size = 3,
                    contentType = ''text/plain'', etag = ''v1''\<rparr>,
           f_buf = Some (bytes_of ''abc'')\<rparr>, Suc 0)"
  by (simp add: remoteFileSystem_Open_def tagged_origin_def getContentType_def getETag_def Header_Get_def
      canonical_keys Trim_def Let_def getModtime_def plain_lib_def Len_def NewReader_def bytes_of_def)

lemma abc_fetch:
  "remoteFileSystem_Open plain_lib abc_origin (\<lambda>c. 0) ''http://origin'' ''/abc'' 0 =
     (Inr \<lparr>ReadSeeker = \<lparr>rd_s = bytes_of ''abc'', rd_i = 3\<rparr>,
           f_fi = \<lparr>basename = ''http://origin/abc'', modtime = 0, fi_size = 0,
                    contentType = ''text/plain; charset=utf-8'',
                    etag = ''900150983cd24fb0d6963f7d28e17f72''\<rparr>,
           f_buf = Some (bytes_of ''abc'')\<rparr>, Suc 0)"
proof -
  have len: "length (bytes_of ''abc'') = 3" by (simp add: bytes_of_def)
  have ct: "getContentType plain_lib
              \<lparr>StatusCode = 200, ContentLength = 3, res_Header = Map.empty, Body = Inr (bytes_of ''abc'')\<rparr>
              (NewReader (bytes_of ''abc'')) ''/abc'' =
            (Inr ''text/plain; charset=utf-8'', NewReader (bytes_of ''abc''))"
    by (simp add: getContentType_def plain_lib_def Let_def ReadFull_def Read_def Seek_def NewReader_def len
        wrap64_def)
  have et: "getETag \<lparr>StatusCode = 200, ContentLength = 3, res_Header = Map.empty, Body = Inr (bytes_of ''abc'')\<rparr>
              (NewReader (bytes_of ''abc'')) =
            (''900150983cd24fb0d6963f7d28e17f72'', \<lparr>rd_s = bytes_of ''abc'', rd_i = 3\<rparr>)"
    by (simp add: getETag_def Header_Get_def Trim_def Let_def WriteTo_def NewReader_def len md5_abc)
  have gm: "getModtime plain_lib 0
              \<lparr>StatusCode = 200, ContentLength = 3, res_Header = Map.empty, Body = Inr (bytes_of ''abc'')\<rparr> = 0"
    by (simp add: getModtime_def plain_lib_def)
  show ?thesis
    by (simp add: remoteFileSystem_Open_def abc_origin_def ct et gm Let_def Len_def len)
qed

lemma abc_serve:
  "fst (serveFile (Open (remoteFileSystem_Open plain_lib abc_origin (\<lambda>c. 0) ''http://origin''))
          Map.empty ''/abc'' (NewCache 50 536870912, 0)) =
     Return (ServeContent
               (Header_Set (Header_Set Map.empty ''Content-Type'' ''text/plain; charset=utf-8'')
                  ''ETag'' ''900150983cd24fb0d6963f7d28e17f72'')
               ''http://origin/abc'' 0
               \<lparr>ReadSeeker = NewReader (bytes_of ''abc''),
                f_fi = \<lparr>basename = ''http://origin/abc'', modtime = 0, fi_size = 0,
                         contentType = ''text/plain; charset=utf-8'',
                         etag = ''900150983cd24fb0d6963f7d28e17f72''\<rparr>,
                f_buf = None\<rparr>)"
proof -
  let ?R = "remoteFileSystem_Open plain_lib abc_origin (\<lambda>c. 0) ''http://origin''"
  let ?fi = "\<lparr>basename = ''http://origin/abc'', modtime = 0, fi_size = 0,
                    contentType = ''text/plain; charset=utf-8'',
                    etag = ''900150983cd24fb0d6963f7d28e17f72''\<rparr>"
  let ?f = "\<lparr>ReadSeeker = \<lparr>rd_s = bytes_of ''abc'', rd_i = 3\<rparr>, f_fi = ?fi, f_buf = Some (bytes_of ''abc'')\<rparr>"
  let ?r = "\<lparr>ReadSeeker = NewReader (bytes_of ''abc''), f_fi = ?fi, f_buf = None\<rparr>"
  have miss: "cache (NewCache 50 536870912) ''/abc'' = None" by (simp add: NewCache_def)
  have rc: "readClone ?f = Return ?r" by (simp add: readClone_def)
  have o: "Open ?R ''/abc'' (NewCache 50 536870912, 0) =
             (Return (Inr ?r), (snd (add ''/abc'' ?f (NewCache 50 536870912)), Suc 0))"
    using Open_miss_add[where origin = ?R and name = "''/abc''" and fs = "NewCache 50 536870912" and w = 0
        and f = ?f and ?w1.0 = "Suc 0", OF miss abc_fetch] rc by (simp add: fst_add)
  show ?thesis
    by (simp add: serveFile_def o Let_def Name_def Header_Set_def canonical_keys)
qed

lemma abc_header:
  "Header_Get (Header_Set (Header_Set Map.empty ''Content-Type'' ''text/plain; charset=utf-8'')
                  ''ETag'' ''900150983cd24fb0d6963f7d28e17f72'') ''ETag'' = ''900150983cd24fb0d6963f7d28e17f72''"
  by (simp add: Header_Get_def Header_Set_def canonical_keys)

text \<open>
  Claim C5. The etag of the blob is resolved as the claim says: the origin's header
  \<open>ETag\<close> with the value \<open>v1\<close> in double quotes gives the etag \<open>v1\<close>, and the body \<open>abc\<close>
  without an \<open>ETag\<close> header gives \<open>900150983cd24fb0d6963f7d28e17f72\<close>, which \<open>serveFile\<close>
  sets as the header of a response that has none. The serve layer should copy the etag only
  when none is set. It does not: \<open>serveFile\<close> looks the key \<open>ETag\<close> up in the map itself,
  and \<open>http.Header\<close> keeps the header under the canonical key \<open>Etag\<close>, so the lookup finds
  nothing although \<open>w.Header().Set\<close> has set the header to \<open>preset\<close>, and \<open>serveFile\<close>
  replaces that value by \<open>v1\<close>. The test for \<open>Content-Type\<close> just before it uses the
  canonical key and leaves the value that is set alone.
\<close>

theorem serveFile_replaces_etag_already_set:
  "fst (remoteFileSystem_Open plain_lib abc_origin (\<lambda>c. 0) ''http://origin'' ''/abc'' 0) =
     Inr \<lparr>ReadSeeker = \<lparr>rd_s = bytes_of ''abc'', rd_i = 3\<rparr>,
          f_fi = \<lparr>basename = ''http://origin/abc'', modtime = 0, fi_size = 0,
                   contentType = ''text/plain; charset=utf-8'',
                   etag = ''900150983cd24fb0d6963f7d28e17f72''\<rparr>,
          f_buf = Some (bytes_of ''abc'')\<rparr> \<and>
   fst (serveFile (Open (remoteFileSystem_Open plain_lib abc_origin (\<lambda>c. 0) ''http://origin''))
          Map.empty ''/abc'' (NewCache 50 536870912, 0)) =
     Return (ServeContent
               (Header_Set (Header_Set Map.empty ''Content-Type'' ''text/plain; charset=utf-8'')
                  ''ETag'' ''900150983cd24fb0d6963f7d28e17f72'')
               ''http://origin/abc'' 0
               \<lparr>ReadSeeker = NewReader (bytes_of ''abc''),
                f_fi = \<lparr>basename = ''http://origin/abc'', modtime = 0, fi_size = 0,
                         contentType = ''text/plain; charset=utf-8'',
                         etag = ''900150983cd24fb0d6963f7d28e17f72''\<rparr>,
                f_buf = None\<rparr>) \<and>
   Header_Get (Header_Set (Header_Set Map.empty ''Content-Type'' ''text/plain; charset=utf-8'')
                 ''ETag'' ''900150983cd24fb0d6963f7d28e17f72'') ''ETag'' = ''900150983cd24fb0d6963f7d28e17f72'' \<and>
   Header_Get preset_headers ''ETag'' = ''preset'' \<and>
   Header_Get preset_headers ''Content-Type'' = ''application/preset'' \<and>
   preset_headers ''ETag'' = None \<and>
   fst (remoteFileSystem_Open plain_lib tagged_origin (\<lambda>c. 0) ''http://origin'' ''/abc'' 0) =
     Inr \<lparr>ReadSeeker = NewReader (bytes_of ''abc''),
          f_fi = \<lparr>basename = ''http://origin/abc'', modtime = 0, fi_size = 3,
                   contentType = ''text/plain'', etag = ''v1''\<rparr>,
          f_buf = Some (bytes_of ''abc'')\<rparr> \<and>
   fst (serveFile (Open (remoteFileSystem_Open plain_lib tagged_origin (\<lambda>c. 0) ''http://origin''))
          preset_headers ''/abc'' (NewCache 50 536870912, 0)) =
     Return (ServeContent (Header_Set preset_headers ''ETag'' ''v1'') ''http://origin/abc'' 0
               \<lparr>ReadSeeker = NewReader (bytes_of ''abc''),
                f_fi = \<lparr>basename = ''http://origin/abc'', modtime = 0, fi_size = 3,
                         contentType = ''text/plain'', etag = ''v1''\<rparr>,
                f_buf = None\<rparr>) \<and>
   Header_Get (Header_Set preset_headers ''ETag'' ''v1'') ''ETag'' = ''v1'' \<and>
   Header_Get (Header_Set preset_headers ''ETag'' ''v1'') ''Content-Type'' = ''application/preset''"
proof -
  let ?R = "remoteFileSystem_Open plain_lib tagged_origin (\<lambda>c. 0) ''http://origin''"
  let ?f = "\<lparr>ReadSeeker = NewReader (bytes_of ''abc''),
           f_fi = \<lparr>basename = ''http://origin/abc'', modtime = 0, fi_size = 3,
                    contentType = ''text/plain'', etag = ''v1''\<rparr>,
           f_buf = Some (bytes_of ''abc'')\<rparr>"
  let ?r = "\<lparr>ReadSeeker = NewReader (bytes_of ''abc''),
                f_fi = \<lparr>basename = ''http://origin/abc'', modtime = 0, fi_size = 3,
                         contentType = ''text/plain'', etag = ''v1''\<rparr>,
                f_buf = None\<rparr>"
  have h: "Header_Get preset_headers ''ETag'' = ''preset''"
    "Header_Get preset_headers ''Content-Type'' = ''application/preset''"
    "preset_headers ''ETag'' = None"
    "preset_headers ''Content-Type'' = Some [''application/preset'']"
    by (simp_all add: preset_headers_def Header_Get_def Header_Set_def canonical_keys)
  have h2: "Header_Get (Header_Set preset_headers ''ETag'' ''v1'') ''ETag'' = ''v1''"
    "Header_Get (Header_Set preset_headers ''ETag'' ''v1'') ''Content-Type'' = ''application/preset''"
    by (simp_all add: preset_headers_def Header_Get_def Header_Set_def canonical_keys)
  have miss: "cache (NewCache 50 536870912) ''/abc'' = None" by (simp add: NewCache_def)
  have rc: "readClone ?f = Return ?r" by (simp add: readClone_def)
  have o: "Open ?R ''/abc'' (NewCache 50 536870912, 0) =
             (Return (Inr ?r), (snd (add ''/abc'' ?f (NewCache 50 536870912)), Suc 0))"
    using Open_miss_add[where origin = ?R and name = "''/abc''" and fs = "NewCache 50 536870912" and w = 0
        and f = ?f and ?w1.0 = "Suc 0", OF miss tagged_fetch] rc by (simp add: fst_add)
  have s: "fst (serveFile (Open ?R) preset_headers ''/abc'' (NewCache 50 536870912, 0)) =
     Return (ServeContent (Header_Set preset_headers ''ETag'' ''v1'') ''http://origin/abc'' 0 ?r)"
    by (simp add: serveFile_def o h Let_def Name_def)
  show ?thesis using h(1-3) h2 s tagged_fetch abc_fetch abc_serve abc_header by simp
qed

theorem serveFile_replaces_etag_witness:
  "Header_Get preset_headers ''ETag'' = ''preset'' \<and>
   (case fst (serveFile (Open (remoteFileSystem_Open plain_lib tagged_origin (\<lambda>c. 0) ''http://origin''))
                preset_headers ''/abc'' (NewCache 50 536870912, 0)) of
      Return (ServeContent w2 nm t r) \<Rightarrow>
        etag (f_fi r) = ''v1'' \<and> Header_Get w2 ''ETag'' = ''v1'' \<and>
        contentType (f_fi r) = ''text/plain'' \<and> Header_Get w2 ''Content-Type'' = ''application/preset''
    | _ \<Rightarrow> False)"
  using serveFile_replaces_etag_already_set by simp

lemma remote_Open_missing:
  assumes get: "Get (origin @ name) n = (Inr res, n1)"
    and bad: "StatusCode res \<noteq> 200 \<or> ContentLength res \<le> 0"
  shows "remoteFileSystem_Open l Get Now origin name n = (Inl ErrMissingFile, n1)"
  using get bad by (auto simp: remoteFileSystem_Open_def Let_def)

lemma remote_Open_snd: "snd (remoteFileSystem_Open l Get Now origin name m) = snd (Get (origin @ name) m)"
proof -
  obtain a m1 where g: "Get (origin @ name) m = (a, m1)" by (cases "Get (origin @ name) m")
  show ?thesis
    by (simp add: remoteFileSystem_Open_def Let_def g split: sum.splits prod.splits)
qed

lemma remote_Open_missing_iff:
  "fst (remoteFileSystem_Open l Get Now origin name m) = Inl ErrMissingFile \<longleftrightarrow>
   (\<exists>res. fst (Get (origin @ name) m) = Inr res \<and> (StatusCode res \<noteq> 200 \<or> ContentLength res \<le> 0))"
proof -
  obtain a m1 where g: "Get (origin @ name) m = (a, m1)" by (cases "Get (origin @ name) m")
  show ?thesis
  proof (cases a)
    case (Inl err)
    then show ?thesis using g by (simp add: remoteFileSystem_Open_def Let_def)
  next
    case (Inr res)
    show ?thesis
    proof (cases "StatusCode res \<noteq> 200 \<or> ContentLength res \<le> 0")
      case True
      then show ?thesis
        using remote_Open_missing[where Get = Get and origin = origin and name = name and n = m
            and res = res and ?n1.0 = m1 and l = l and Now = Now] g Inr by simp
    next
      case False
      then have ok: "StatusCode res = 200" "ContentLength res > 0" by simp_all
      show ?thesis
      proof (cases "Body res")
        case (Inl err)
        then show ?thesis using g Inr ok by (simp add: remoteFileSystem_Open_def Let_def)
      next
        case b: (Inr buf)
        have "\<exists>f. remoteFileSystem_Open l Get Now origin name m = (Inr f, m1)"
          using remote_Open_ok[where Get = Get and origin = origin and name = name and n = m
              and res = res and ?n1.0 = m1 and l = l and Now = Now and buf = buf] g Inr ok b by blast
        then show ?thesis using g Inr ok by auto
      qed
    qed
  qed
qed

lemma Open_miss_snd:
  assumes "cache fs name = None"
  shows "snd (snd (Open origin name (fs, m))) = snd (origin name m)"
proof -
  obtain a m1 where o: "origin name m = (a, m1)" by (cases "origin name m")
  show ?thesis
  proof (cases a)
    case (Inl err)
    then show ?thesis using Open_miss_err[where origin = origin, OF assms] o by simp
  next
    case (Inr f)
    then show ?thesis using Open_miss_add[where origin = origin, OF assms] o by simp
  qed
qed

text \<open>
  Claim C6. The origin client returns \<open>http.ErrMissingFile\<close> exactly when the \<open>GET\<close>
  completes with a status other than 200 or a declared content length of at most 0. For a
  name that is not cached the cache then returns this error and its state is unchanged, so
  \<open>serveFile\<close> calls \<open>http.NotFound\<close> (HTTP 404); and every \<open>Open\<close> of the name in that
  cache state sends the \<open>GET\<close> again: the state of the network after the call is the state
  after the \<open>GET\<close>.
\<close>

theorem origin_not_found_is_not_cached:
  assumes miss: "cache fs name = None"
    and get: "Get (origin @ name) n = (Inr res, n1)"
    and bad: "StatusCode res \<noteq> 200 \<or> ContentLength res \<le> 0"
  shows "remoteFileSystem_Open l Get Now origin name n = (Inl ErrMissingFile, n1) \<and>
         Open (remoteFileSystem_Open l Get Now origin) name (fs, n) = (Return (Inl ErrMissingFile), (fs, n1)) \<and>
         serveFile (Open (remoteFileSystem_Open l Get Now origin)) w name (fs, n) = (Return (NotFound w), (fs, n1)) \<and>
         (\<forall>m. snd (snd (Open (remoteFileSystem_Open l Get Now origin) name (fs, m))) = snd (Get (origin @ name) m)) \<and>
         (\<forall>m. fst (remoteFileSystem_Open l Get Now origin name m) = Inl ErrMissingFile \<longleftrightarrow>
              (\<exists>res'. fst (Get (origin @ name) m) = Inr res' \<and>
                      (StatusCode res' \<noteq> 200 \<or> ContentLength res' \<le> 0)))"
proof -
  let ?R = "remoteFileSystem_Open l Get Now origin"
  have r: "?R name n = (Inl ErrMissingFile, n1)" using get bad by (rule remote_Open_missing)
  have o: "Open ?R name (fs, n) = (Return (Inl ErrMissingFile), (fs, n1))"
    using Open_miss_err[where origin = ?R, OF miss r] .
  have s: "serveFile (Open ?R) w name (fs, n) = (Return (NotFound w), (fs, n1))"
    by (simp add: serveFile_def o)
  have f: "snd (snd (Open ?R name (fs, m))) = snd (Get (origin @ name) m)" for m
    using Open_miss_snd[where origin = ?R, OF miss, of m] by (simp add: remote_Open_snd)
  show ?thesis using r o s f remote_Open_missing_iff[of l Get Now origin name] by blast
qed

theorem origin_not_found_witness:
  "serveFile (Open (remoteFileSystem_Open plain_lib empty_origin (\<lambda>c. 0) ''http://origin'')) Map.empty ''/missing''
       (NewCache 50 536870912, 0) = (Return (NotFound Map.empty), (NewCache 50 536870912, 1)) \<and>
   serveFile (Open (remoteFileSystem_Open plain_lib empty_origin (\<lambda>c. 0) ''http://origin'')) Map.empty ''/missing''
       (NewCache 50 536870912, 1) = (Return (NotFound Map.empty), (NewCache 50 536870912, 2))"
proof -
  let ?res = "\<lparr>StatusCode = 404, ContentLength = 19, res_Header = Map.empty,
           Body = Inr (bytes_of ''404 page not found'')\<rparr>"
  have miss: "cache (NewCache 50 536870912) ''/missing'' = None" by (simp add: NewCache_def)
  have bad: "StatusCode ?res \<noteq> 200 \<or> ContentLength ?res \<le> 0" by simp
  have g1: "empty_origin (''http://origin'' @ ''/missing'') 0 = (Inr ?res, 1)"
    and g2: "empty_origin (''http://origin'' @ ''/missing'') 1 = (Inr ?res, 2)"
    by (simp_all add: empty_origin_def)
  note t1 = origin_not_found_is_not_cached[where Get = empty_origin and origin = "''http://origin''"
      and name = "''/missing''" and l = plain_lib and Now = "\<lambda>c. 0" and w = Map.empty, OF miss g1 bad]
  note t2 = origin_not_found_is_not_cached[where Get = empty_origin and origin = "''http://origin''"
      and name = "''/missing''" and l = plain_lib and Now = "\<lambda>c. 0" and w = Map.empty, OF miss g2 bad]
  show ?thesis
    using t1[THEN conjunct2, THEN conjunct2, THEN conjunct1] t2[THEN conjunct2, THEN conjunct2, THEN conjunct1]
    by (rule conjI)
qed

section \<open>Independence of read clones\<close>

lemma file_op_other:
  "h' \<noteq> h \<Longrightarrow> objects (snd (file_op h op' st)) h' = objects st h'"
  by (simp add: file_op_def split: option.splits prod.splits)

lemma file_op_self:
  "objects st h = Some f \<Longrightarrow>
   file_op h op' st =
     (Some (fst (reader_op op' (ReadSeeker f))),
      st\<lparr>objects := (objects st)(h \<mapsto> f\<lparr>ReadSeeker := snd (reader_op op' (ReadSeeker f))\<rparr>)\<rparr>)"
  by (simp add: file_op_def split: prod.splits)

lemma reader_op_slice: "rd_s (snd (reader_op op' r)) = rd_s r"
  by (cases op') (auto simp: reader_op_def Read_def Seek_def Let_def split: prod.splits if_splits)

lemma file_ops_project:
  assumes "objects st h = Some f"
  shows "calls_of h (fst (file_ops ops st)) = map Some (reader_ops (calls_of h ops) (ReadSeeker f)) \<and>
         (\<exists>r. objects (snd (file_ops ops st)) h = Some (f\<lparr>ReadSeeker := r\<rparr>) \<and>
              rd_s r = rd_s (ReadSeeker f))"
  using assms
proof (induction ops arbitrary: st f)
  case Nil
  have "f = f\<lparr>ReadSeeker := ReadSeeker f\<rparr>" by simp
  have "objects (snd (file_ops [] st)) h = Some (f\<lparr>ReadSeeker := ReadSeeker f\<rparr>) \<and>
        rd_s (ReadSeeker f) = rd_s (ReadSeeker f)" using Nil by simp
  then have "\<exists>r. objects (snd (file_ops [] st)) h = Some (f\<lparr>ReadSeeker := r\<rparr>) \<and>
        rd_s r = rd_s (ReadSeeker f)" by (rule exI)
  then show ?case by (simp add: calls_of_def)
next
  case (Cons x ops)
  obtain h' op' where x: "x = (h', op')" by (cases x)
  obtain res st1 where fo: "file_op h' op' st = (res, st1)" by (cases "file_op h' op' st")
  obtain results st2 where fos: "file_ops ops st1 = (results, st2)" by (cases "file_ops ops st1")
  show ?case
  proof (cases "h' = h")
    case True
    obtain rr r1 where ro: "reader_op op' (ReadSeeker f) = (rr, r1)" by (cases "reader_op op' (ReadSeeker f)")
    have fo': "file_op h op' st = (res, st1)" using fo True by simp
    have res: "res = Some rr"
      and st1: "objects st1 h = Some (f\<lparr>ReadSeeker := r1\<rparr>)"
      using file_op_self[OF Cons.prems, of op'] fo' ro by auto
    have sl: "rd_s r1 = rd_s (ReadSeeker f)" using reader_op_slice[of op' "ReadSeeker f"] ro by simp
    from Cons.IH[OF st1] fos
    have ih: "calls_of h results = map Some (reader_ops (calls_of h ops) r1)"
      and ex: "\<exists>r. objects st2 h = Some (f\<lparr>ReadSeeker := r\<rparr>) \<and> rd_s r = rd_s (ReadSeeker f)"
      by (auto simp: sl)
    have "calls_of h (fst (file_ops (x # ops) st)) = Some rr # calls_of h results"
      by (simp add: x True fo' fos res calls_of_def)
    moreover have "reader_ops (calls_of h (x # ops)) (ReadSeeker f) = rr # reader_ops (calls_of h ops) r1"
      by (simp add: x True calls_of_def ro)
    moreover have "snd (file_ops (x # ops) st) = st2" by (simp add: x True fo' fos)
    ultimately show ?thesis using ih ex by simp
  next
    case False
    have st1: "objects st1 h = Some f"
      using file_op_other[of h h' op' st] fo False Cons.prems by simp
    from Cons.IH[OF st1] fos
    have ih: "calls_of h results = map Some (reader_ops (calls_of h ops) (ReadSeeker f))"
      and ex: "\<exists>r. objects st2 h = Some (f\<lparr>ReadSeeker := r\<rparr>) \<and> rd_s r = rd_s (ReadSeeker f)"
      by auto
    show ?thesis
      using ih ex False by (simp add: x fo fos calls_of_def)
  qed
qed

lemma file_ops_untouched:
  assumes "h \<notin> fst ` set ops"
  shows "objects (snd (file_ops ops st)) h = objects st h"
  using assms
proof (induction ops arbitrary: st)
  case Nil
  then show ?case by simp
next
  case (Cons x ops)
  obtain h' op' where x: "x = (h', op')" by (cases x)
  obtain res st1 where fo: "file_op h' op' st = (res, st1)" by (cases "file_op h' op' st")
  obtain results st2 where fos: "file_ops ops st1 = (results, st2)" by (cases "file_ops ops st1")
  have ne: "h \<noteq> h'" and rest: "h \<notin> fst ` set ops" using Cons.prems by (auto simp: x)
  have "objects st1 h = objects st h" using file_op_other[OF ne, of op' st] fo by simp
  then show ?case using Cons.IH[OF rest, of st1] fos by (simp add: x fo)
qed

text \<open>
  Claim C8. Two read clones of a cached blob (a file with its buffer set) are two new
  objects, different from each other and from the blob, each a reader at offset 0 over the
  blob's bytes. Whatever reads and seeks are made through the two pointers, in any
  interleaving, the results seen through each pointer are those of its own calls made
  alone on a fresh reader over the bytes; so two cursors given the same calls read the
  same bytes. The blob is unchanged afterwards, and both readers still read the same
  slice.
\<close>

theorem read_clones_are_independent:
  assumes blob: "objects st b = Some f" "b < next_object st"
    and c1: "new_readClone b st = (Return h1, st1)"
    and c2: "new_readClone b st1 = (Return h2, st2)"
    and ops: "fst ` set ops \<subseteq> {h1, h2}"
  shows "\<exists>bytes. f_buf f = Some bytes \<and> h1 \<noteq> h2 \<and> h1 \<noteq> b \<and> h2 \<noteq> b \<and>
           objects st2 h1 = Some \<lparr>ReadSeeker = \<lparr>rd_s = bytes, rd_i = 0\<rparr>, f_fi = f_fi f, f_buf = None\<rparr> \<and>
           objects st2 h2 = Some \<lparr>ReadSeeker = \<lparr>rd_s = bytes, rd_i = 0\<rparr>, f_fi = f_fi f, f_buf = None\<rparr> \<and>
           calls_of h1 (fst (file_ops ops st2)) =
             map Some (reader_ops (calls_of h1 ops) \<lparr>rd_s = bytes, rd_i = 0\<rparr>) \<and>
           calls_of h2 (fst (file_ops ops st2)) =
             map Some (reader_ops (calls_of h2 ops) \<lparr>rd_s = bytes, rd_i = 0\<rparr>) \<and>
           (calls_of h1 ops = calls_of h2 ops \<longrightarrow>
              calls_of h1 (fst (file_ops ops st2)) = calls_of h2 (fst (file_ops ops st2))) \<and>
           objects (snd (file_ops ops st2)) b = Some f \<and>
           (\<exists>i1 i2. objects (snd (file_ops ops st2)) h1 =
                      Some \<lparr>ReadSeeker = \<lparr>rd_s = bytes, rd_i = i1\<rparr>, f_fi = f_fi f, f_buf = None\<rparr> \<and>
                   objects (snd (file_ops ops st2)) h2 =
                      Some \<lparr>ReadSeeker = \<lparr>rd_s = bytes, rd_i = i2\<rparr>, f_fi = f_fi f, f_buf = None\<rparr>)"
proof -
  obtain bytes where buf: "f_buf f = Some bytes"
    using c1 blob(1) by (cases "f_buf f") (auto simp: new_readClone_def readClone_def)
  let ?c = "\<lparr>ReadSeeker = \<lparr>rd_s = bytes, rd_i = 0\<rparr>, f_fi = f_fi f, f_buf = None\<rparr>"
  have rc: "readClone f = Return ?c" using buf by (simp add: readClone_def NewReader_def)
  have h1: "h1 = next_object st"
    and st1: "st1 = st\<lparr>objects := (objects st)(next_object st \<mapsto> ?c), next_object := Suc (next_object st)\<rparr>"
    using c1 blob(1) rc by (auto simp: new_readClone_def)
  have b1: "objects st1 b = Some f" using blob by (simp add: st1)
  have h2: "h2 = Suc (next_object st)"
    and st2: "st2 = st1\<lparr>objects := (objects st1)(next_object st1 \<mapsto> ?c), next_object := Suc (next_object st1)\<rparr>"
    using c2 b1 rc by (auto simp: new_readClone_def st1)
  have ne: "h1 \<noteq> h2" "h1 \<noteq> b" "h2 \<noteq> b" using blob(2) by (simp_all add: h1 h2)
  have o1: "objects st2 h1 = Some ?c" and o2: "objects st2 h2 = Some ?c" and ob: "objects st2 b = Some f"
    using blob ne by (simp_all add: st2 st1 h1 h2)
  note p1 = file_ops_project[OF o1, of ops]
  note p2 = file_ops_project[OF o2, of ops]
  have r1: "calls_of h1 (fst (file_ops ops st2)) = map Some (reader_ops (calls_of h1 ops) \<lparr>rd_s = bytes, rd_i = 0\<rparr>)"
    and r2: "calls_of h2 (fst (file_ops ops st2)) = map Some (reader_ops (calls_of h2 ops) \<lparr>rd_s = bytes, rd_i = 0\<rparr>)"
    using p1 p2 by simp_all
  have same: "calls_of h1 (fst (file_ops ops st2)) = calls_of h2 (fst (file_ops ops st2))"
    if "calls_of h1 ops = calls_of h2 ops"
    using r1 r2 that by simp
  have "b \<notin> fst ` set ops" using ops ne by auto
  then have keep: "objects (snd (file_ops ops st2)) b = Some f"
    using file_ops_untouched[of b ops st2] ob by simp
  have fin: "\<exists>i. objects (snd (file_ops ops st2)) h =
                 Some \<lparr>ReadSeeker = \<lparr>rd_s = bytes, rd_i = i\<rparr>, f_fi = f_fi f, f_buf = None\<rparr>"
    if o: "objects st2 h = Some ?c" for h
  proof -
    from file_ops_project[OF o, of ops]
    obtain r where r: "objects (snd (file_ops ops st2)) h = Some (?c\<lparr>ReadSeeker := r\<rparr>)"
      and s: "rd_s r = bytes" by auto
    have "r = \<lparr>rd_s = bytes, rd_i = rd_i r\<rparr>" using s by simp
    then have "objects (snd (file_ops ops st2)) h =
                 Some \<lparr>ReadSeeker = \<lparr>rd_s = bytes, rd_i = rd_i r\<rparr>, f_fi = f_fi f, f_buf = None\<rparr>"
      using r by simp
    then show ?thesis by (rule exI)
  qed
  from fin[OF o1] fin[OF o2] have fin2: "\<exists>i1 i2. objects (snd (file_ops ops st2)) h1 =
                      Some \<lparr>ReadSeeker = \<lparr>rd_s = bytes, rd_i = i1\<rparr>, f_fi = f_fi f, f_buf = None\<rparr> \<and>
                   objects (snd (file_ops ops st2)) h2 =
                      Some \<lparr>ReadSeeker = \<lparr>rd_s = bytes, rd_i = i2\<rparr>, f_fi = f_fi f, f_buf = None\<rparr>"
    by (elim exE) (intro exI conjI)
  have "f_buf f = Some bytes \<and> h1 \<noteq> h2 \<and> h1 \<noteq> b \<and> h2 \<noteq> b \<and>
           objects st2 h1 = Some ?c \<and> objects st2 h2 = Some ?c \<and>
           calls_of h1 (fst (file_ops ops st2)) =
             map Some (reader_ops (calls_of h1 ops) \<lparr>rd_s = bytes, rd_i = 0\<rparr>) \<and>
           calls_of h2 (fst (file_ops ops st2)) =
             map Some (reader_ops (calls_of h2 ops) \<lparr>rd_s = bytes, rd_i = 0\<rparr>) \<and>
           (calls_of h1 ops = calls_of h2 ops \<longrightarrow>
              calls_of h1 (fst (file_ops ops st2)) = calls_of h2 (fst (file_ops ops st2))) \<and>
           objects (snd (file_ops ops st2)) b = Some f \<and>
           (\<exists>i1 i2. objects (snd (file_ops ops st2)) h1 =
                      Some \<lparr>ReadSeeker = \<lparr>rd_s = bytes, rd_i = i1\<rparr>, f_fi = f_fi f, f_buf = None\<rparr> \<and>
                   objects (snd (file_ops ops st2)) h2 =
                      Some \<lparr>ReadSeeker = \<lparr>rd_s = bytes, rd_i = i2\<rparr>, f_fi = f_fi f, f_buf = None\<rparr>)"
    using buf ne o1 o2 r1 r2 same keep fin2 by (intro conjI impI)
  then show ?thesis by (rule exI)
qed

theorem read_clones_witness:
  "objects (snd (file_ops interleaved two_clones)) 0 = Some (newFile ''file1'') \<and>
   calls_of 1 (fst (file_ops interleaved two_clones)) =
     [Some (ReadResult (Inr (bytes_of ''fi''))), Some (SeekResult (Inr 0)),
      Some (ReadResult (Inr (bytes_of ''file1'')))] \<and>
   calls_of 2 (fst (file_ops interleaved two_clones)) =
     [Some (ReadResult (Inr (bytes_of ''file1''))), Some (ReadResult (Inl EOF))]"
proof -
  have blob: "objects blob_store 0 = Some (newFile ''file1'')" "0 < next_object blob_store"
    by (simp_all add: blob_store_def)
  have c1: "new_readClone 0 blob_store = (Return 1, snd (new_readClone 0 blob_store))"
    by (simp add: new_readClone_def blob_store_def readClone_def newFile_def Let_def)
  have c2: "new_readClone 0 (snd (new_readClone 0 blob_store)) = (Return 2, two_clones)"
    by (simp add: two_clones_def new_readClone_def blob_store_def readClone_def newFile_def Let_def)
  have ops: "fst ` set interleaved \<subseteq> {1, 2}" by (simp add: interleaved_def)
  from read_clones_are_independent[OF blob c1 c2 ops]
  have keep: "objects (snd (file_ops interleaved two_clones)) 0 = Some (newFile ''file1'')"
    by (elim exE conjE)
  have r1: "calls_of 1 (fst (file_ops interleaved two_clones)) =
     [Some (ReadResult (Inr (bytes_of ''fi''))), Some (SeekResult (Inr 0)),
      Some (ReadResult (Inr (bytes_of ''file1'')))]"
    by (simp add: two_clones_def new_readClone_def blob_store_def readClone_def newFile_def Let_def
        interleaved_def file_op_def reader_op_def Read_def Seek_def NewReader_def calls_of_def bytes_of_def)
  have r2: "calls_of 2 (fst (file_ops interleaved two_clones)) =
     [Some (ReadResult (Inr (bytes_of ''file1''))), Some (ReadResult (Inl EOF))]"
    by (simp add: two_clones_def new_readClone_def blob_store_def readClone_def newFile_def Let_def
        interleaved_def file_op_def reader_op_def Read_def Seek_def NewReader_def calls_of_def bytes_of_def)
  show ?thesis using keep r1 r2 by (intro conjI)
qed

section \<open>The client identifier and throttling\<close>

lemma canonical_xff: "CanonicalMIMEHeaderKey ''X-Forwarded-For'' = ''X-Forwarded-For''"
  by code_simp

text \<open>
  Claim C9, as stated, fails for a request whose \<open>X-Forwarded-For\<close> header is present with
  an empty first value: \<open>Header.Get\<close> yields the empty string, which \<open>clientAddr\<close> takes
  for no address, and the identifier is the host of the remote address.
\<close>

theorem client_identifier_counterexample:
  "rq_Header empty_forwarded ''X-Forwarded-For'' = Some [[]] \<and>
   spec_clientAddr empty_forwarded = Inr [] \<and>
   clientAddr empty_forwarded = Inr ''10.0.0.1'' \<and>
   clientAddr empty_forwarded \<noteq> spec_clientAddr empty_forwarded"
proof -
  have s: "SplitHostPort ''10.0.0.1:4711'' = Inr (''10.0.0.1'', ''4711'')" by code_simp
  show ?thesis
    by (simp add: empty_forwarded_def spec_clientAddr_def clientAddr_def Header_Get_def canonical_xff s)
qed

text \<open>
  Claim C9, amended. The client identifier is the first value of the \<open>X-Forwarded-For\<close>
  header when that value is not empty; when the header is absent, has no value or has an
  empty first value, it is the host part of the remote address, and a remote address that
  does not split into host and port is answered HTTP 500. A request whose bucket grants no
  token is answered HTTP 429 whatever the wrapped handler is, and the state behind that
  handler (the cache) is unchanged; with a token the wrapped handler runs.
\<close>

theorem client_identifier_and_throttling:
  fixes lib' :: "('b, 'l) bucket_lib" and l :: 'l and s :: 's
  shows "(\<forall>v vs. rq_Header r ''X-Forwarded-For'' = Some (v # vs) \<and> v \<noteq> [] \<longrightarrow>
       clientAddr r = Inr v \<and> clientAddr r = spec_clientAddr r) \<and>
   (rq_Header r ''X-Forwarded-For'' = None \<or> rq_Header r ''X-Forwarded-For'' = Some [] \<or>
    (\<exists>vs. rq_Header r ''X-Forwarded-For'' = Some ([] # vs)) \<longrightarrow>
       (\<forall>host port. SplitHostPort (RemoteAddr r) = Inr (host, port) \<longrightarrow> clientAddr r = Inr host) \<and>
       (\<forall>err. SplitHostPort (RemoteAddr r) = Inl err \<longrightarrow>
          clientAddr r = Inl err \<and>
          (\<forall>h :: ServerRequest \<Rightarrow> 's \<Rightarrow> 'a \<times> 's.
             ratelimitHandler lib' h r (l, s) = (HttpError 500 ''Internal Server Error'', (l, s))))) \<and>
   (rq_Header r ''X-Forwarded-For'' = None \<longrightarrow> clientAddr r = spec_clientAddr r) \<and>
   (\<forall>host l1. clientAddr r = Inr host \<and> Take lib' host l = (False, l1) \<longrightarrow>
       (\<forall>h :: ServerRequest \<Rightarrow> 's \<Rightarrow> 'a \<times> 's.
          ratelimitHandler lib' h r (l, s) = (HttpError 429 ''Too many requests'', (l1, s)))) \<and>
   (\<forall>host l1. \<forall>h :: ServerRequest \<Rightarrow> 's \<Rightarrow> 'a \<times> 's.
       clientAddr r = Inr host \<and> Take lib' host l = (True, l1) \<longrightarrow>
       ratelimitHandler lib' h r (l, s) = (Served (fst (h r s)), (l1, snd (h r s))))"
proof -
  have a: "clientAddr r = Inr v \<and> clientAddr r = spec_clientAddr r"
    if "rq_Header r ''X-Forwarded-For'' = Some (v # vs)" "v \<noteq> []" for v vs
    using that by (simp add: clientAddr_def spec_clientAddr_def Header_Get_def canonical_xff)
  have get0: "Header_Get (rq_Header r) ''X-Forwarded-For'' = []"
    if "rq_Header r ''X-Forwarded-For'' = None \<or> rq_Header r ''X-Forwarded-For'' = Some [] \<or>
        (\<exists>vs. rq_Header r ''X-Forwarded-For'' = Some ([] # vs))"
    using that by (auto simp: Header_Get_def canonical_xff)
  have b1: "clientAddr r = Inr host"
    if "Header_Get (rq_Header r) ''X-Forwarded-For'' = []" "SplitHostPort (RemoteAddr r) = Inr (host, port)"
    for host port
    using that by (simp add: clientAddr_def)
  have b2: "clientAddr r = Inl err \<and>
            (\<forall>h :: ServerRequest \<Rightarrow> 's \<Rightarrow> 'a \<times> 's.
               ratelimitHandler lib' h r (l, s) = (HttpError 500 ''Internal Server Error'', (l, s)))"
    if "Header_Get (rq_Header r) ''X-Forwarded-For'' = []" "SplitHostPort (RemoteAddr r) = Inl err"
    for err
    using that by (simp add: clientAddr_def ratelimitHandler_def)
  have c: "clientAddr r = spec_clientAddr r" if "rq_Header r ''X-Forwarded-For'' = None"
    using that by (simp add: clientAddr_def spec_clientAddr_def Header_Get_def canonical_xff)
  have d: "ratelimitHandler lib' h r (l, s) = (HttpError 429 ''Too many requests'', (l1, s))"
    if "clientAddr r = Inr host" "Take lib' host l = (False, l1)" for host l1 and h :: "ServerRequest \<Rightarrow> 's \<Rightarrow> 'a \<times> 's"
    using that by (simp add: ratelimitHandler_def)
  have e: "ratelimitHandler lib' h r (l, s) = (Served (fst (h r s)), (l1, snd (h r s)))"
    if "clientAddr r = Inr host" "Take lib' host l = (True, l1)" for host l1 and h :: "ServerRequest \<Rightarrow> 's \<Rightarrow> 'a \<times> 's"
    using that by (simp add: ratelimitHandler_def split: prod.splits)
  show ?thesis
    apply (intro conjI allI impI)
    subgoal for v vs using a by blast
    subgoal for v vs using a by blast
    subgoal for host port using get0 b1 by blast
    subgoal for err using get0 b2 by blast
    subgoal for err h using get0 b2 by blast
    subgoal using c by blast
    subgoal for host l1 h using d by blast
    subgoal for host l1 h using e by blast
    done
qed

theorem client_identifier_witness:
  "clientAddr forwarded = Inr ''192.0.2.7'' \<and>
   ratelimitHandler drained (\<lambda>r s. ((), Suc s)) forwarded (0, 0 :: nat) =
     (HttpError 429 ''Too many requests'', (1, 0))"
proof -
  note th = client_identifier_and_throttling[of forwarded drained 0 "0 :: nat"]
  have h: "rq_Header forwarded ''X-Forwarded-For'' = Some (''192.0.2.7'' # [''198.51.100.1'']) \<and> ''192.0.2.7'' \<noteq> []"
    by (simp add: forwarded_def)
  have id: "clientAddr forwarded = Inr ''192.0.2.7''"
    using th[THEN conjunct1, rule_format, OF h] by simp
  have t: "clientAddr forwarded = Inr ''192.0.2.7'' \<and> Take drained ''192.0.2.7'' 0 = (False, 1)"
    using id by (simp add: Take_def drained_def)
  have "ratelimitHandler drained (\<lambda>r s. ((), Suc s)) forwarded (0, 0 :: nat) =
     (HttpError 429 ''Too many requests'', (1, 0))"
    using th[THEN conjunct2, THEN conjunct2, THEN conjunct2, THEN conjunct1, rule_format, OF t] .
  with id show ?thesis by simp
qed

end
